theory Spec2Isabelle
  imports Main "HOL-Library.Word" "HOL-Library.Multiset"
begin

unbundle bit_operations_syntax

section \<open>Bytes, integers and text\<close>

text \<open>
  A Python \<open>bytes\<close> value is a list of 8-bit words. Every integer of
  \<open>inspect_raw.py\<close> is a length, an offset, a bit index or a big-endian value read from
  bytes: none is ever negative and none is bounded, so they are \<open>nat\<close>. A Python
  \<open>str\<close> is a \<open>string\<close> holding its UTF-8 encoding.
\<close>

type_synonym byte = "8 word"
type_synonym bytes = "byte list"

text \<open>\<open>xs[i:j]\<close> for \<open>0 \<le> i \<le> j\<close>: a slice never raises, it is cut at the end.\<close>

definition slice :: "'a list \<Rightarrow> nat \<Rightarrow> nat \<Rightarrow> 'a list" where
  "slice xs i j = take (j - i) (drop i xs)"

text \<open>\<open>int.from_bytes(bs, "big")\<close>.\<close>

definition from_bytes_big :: "bytes \<Rightarrow> nat" where
  "from_bytes_big bs = foldl (\<lambda>acc b. acc * 256 + unat b) 0 bs"

text \<open>\<open>str(n)\<close> of a non-negative integer: its decimal digits.\<close>

definition digit_char :: "nat \<Rightarrow> char" where
  "digit_char d = char_of (48 + d)"

function str :: "nat \<Rightarrow> string" where
  "str n = (if n < 10 then [digit_char n] else str (n div 10) @ [digit_char (n mod 10)])"
  by pat_completeness auto
termination
  by (relation "measure id") auto

declare str.simps [simp del]

text \<open>\<open>bytes.hex()\<close> and the format \<open>:02x\<close> of one byte: two lower-case digits.\<close>

definition hex_digit :: "nat \<Rightarrow> char" where
  "hex_digit d = (if d < 10 then char_of (48 + d) else char_of (87 + d))"

definition hex_byte :: "byte \<Rightarrow> string" where
  "hex_byte b = [hex_digit (unat b div 16), hex_digit (unat b mod 16)]"

definition hex :: "bytes \<Rightarrow> string" where
  "hex bs = concat (map hex_byte bs)"

text \<open>\<open>sep.join(parts)\<close>.\<close>

fun join :: "string \<Rightarrow> string list \<Rightarrow> string" where
  "join sep [] = []"
| "join sep [s] = s"
| "join sep (s # t # ss) = s @ sep @ join sep (t # ss)"

text \<open>\<open>bs.rstrip(b"\x00")\<close>.\<close>

definition rstrip0 :: "bytes \<Rightarrow> bytes" where
  "rstrip0 bs = rev (dropWhile (\<lambda>b. b = 0) (rev bs))"

section \<open>A Python dict\<close>

text \<open>
  A dict is an association list in insertion order with distinct keys:
  \<open>d[k] = v\<close> replaces the value of a key already there, in place, and appends a new key.
\<close>

fun dict_set :: "('k \<times> 'v) list \<Rightarrow> 'k \<Rightarrow> 'v \<Rightarrow> ('k \<times> 'v) list" where
  "dict_set [] k v = [(k, v)]"
| "dict_set ((k', v') # d) k v = (if k' = k then (k, v) # d else (k', v') # dict_set d k v)"

section \<open>Feature bits\<close>

definition FEATURE_BITS :: "(nat \<times> string) list" where
  "FEATURE_BITS = [
    (0, ''data_loss_protect''),
    (1, ''data_loss_protect''),
    (4, ''upfront_shutdown_script''),
    (5, ''upfront_shutdown_script''),
    (6, ''gossip_queries''),
    (7, ''gossip_queries''),
    (8, ''tlv_onion''),
    (9, ''tlv_onion''),
    (10, ''gossip_queries_ex''),
    (11, ''gossip_queries_ex''),
    (12, ''static_remote_key''),
    (13, ''static_remote_key''),
    (14, ''payment_secret''),
    (15, ''payment_secret''),
    (16, ''basic_mpp''),
    (17, ''basic_mpp''),
    (18, ''large_channels''),
    (19, ''large_channels''),
    (20, ''anchor_outputs''),
    (21, ''anchor_outputs''),
    (22, ''anchors_zero_fee_htlc_tx''),
    (23, ''anchors_zero_fee_htlc_tx''),
    (24, ''route_blinding''),
    (25, ''route_blinding''),
    (26, ''shutdown_anysegwit''),
    (27, ''shutdown_anysegwit''),
    (28, ''dual_fund''),
    (29, ''dual_fund''),
    (44, ''channel_type''),
    (45, ''channel_type''),
    (46, ''scid_alias''),
    (47, ''scid_alias''),
    (48, ''payment_metadata''),
    (49, ''payment_metadata''),
    (50, ''zero_conf''),
    (51, ''zero_conf'')]"

text \<open>\<open>FEATURE_BITS.get(bit, f"unknown_bit_{bit}")\<close>.\<close>

definition feature_name :: "nat \<Rightarrow> string" where
  "feature_name bitn =
     (case map_of FEATURE_BITS bitn of Some name \<Rightarrow> name | None \<Rightarrow> ''unknown_bit_'' @ str bitn)"

text \<open>\<open>"compulsory" if bit % 2 == 0 else "optional"\<close>.\<close>

definition feature_kind :: "nat \<Rightarrow> string" where
  "feature_kind bitn = (if bitn mod 2 = 0 then ''compulsory'' else ''optional'')"

type_synonym features = "(string \<times> string) list"

text \<open>
  The \<open>while val > 0\<close> loop of \<open>decode_features\<close>, on \<open>(val, bit, features)\<close>. The variable
  \<open>bit\<close> is written \<open>bitn\<close>, as \<open>bit\<close> is a constant of HOL.
\<close>

function decode_features_loop :: "nat \<Rightarrow> nat \<Rightarrow> features \<Rightarrow> features" where
  "decode_features_loop val bitn features =
     (if val > 0 then
        decode_features_loop (drop_bit 1 val) (bitn + 1)
          (if val AND 1 \<noteq> 0 then dict_set features (feature_name bitn) (feature_kind bitn)
           else features)
      else features)"
  by pat_completeness auto
termination
  by (relation "measure (\<lambda>(val, bitn, features). val)") (auto simp: drop_bit_eq_div)

declare decode_features_loop.simps [simp del]

definition decode_features :: "bytes \<Rightarrow> features" where
  "decode_features feat_bytes =
     (let feat_int = (if feat_bytes \<noteq> [] then from_bytes_big feat_bytes else 0)
      in decode_features_loop feat_int 0 [])"

section \<open>Text decoding\<close>

text \<open>
  \<open>bs.decode("utf-8", errors="replace")\<close> never raises: a well-formed sequence is kept, and
  each maximal ill-formed part becomes one U+FFFD, in UTF-8 the bytes EF BF BD.
  \<open>utf8_lead\<close> gives, for a lead byte, the number of continuation bytes and the range of the
  first of them.
\<close>

definition byte_char :: "byte \<Rightarrow> char" where
  "byte_char b = char_of (unat b)"

definition REPLACEMENT :: string where
  "REPLACEMENT = [char_of (0xEF :: nat), char_of (0xBF :: nat), char_of (0xBD :: nat)]"

definition utf8_lead :: "byte \<Rightarrow> (nat \<times> byte \<times> byte) option" where
  "utf8_lead b =
     (if 0xC2 \<le> b \<and> b \<le> 0xDF then Some (1, 0x80, 0xBF)
      else if b = 0xE0 then Some (2, 0xA0, 0xBF)
      else if b = 0xED then Some (2, 0x80, 0x9F)
      else if 0xE1 \<le> b \<and> b \<le> 0xEF then Some (2, 0x80, 0xBF)
      else if b = 0xF0 then Some (3, 0x90, 0xBF)
      else if 0xF1 \<le> b \<and> b \<le> 0xF3 then Some (3, 0x80, 0xBF)
      else if b = 0xF4 then Some (3, 0x80, 0x8F)
      else None)"

fun utf8_conts :: "nat \<Rightarrow> byte \<Rightarrow> byte \<Rightarrow> bytes \<Rightarrow> nat" where
  "utf8_conts n lo hi [] = 0"
| "utf8_conts n lo hi (c # cs) =
     (if 0 < n \<and> lo \<le> c \<and> c \<le> hi then 1 + utf8_conts (n - 1) 0x80 0xBF cs else 0)"

function utf8_decode_replace :: "bytes \<Rightarrow> string" where
  "utf8_decode_replace [] = []"
| "utf8_decode_replace (b # bs) =
     (if b < 0x80 then byte_char b # utf8_decode_replace bs
      else case utf8_lead b of
        None \<Rightarrow> REPLACEMENT @ utf8_decode_replace bs
      | Some (n, lo, hi) \<Rightarrow>
          (let k = utf8_conts n lo hi bs
           in if k = n then map byte_char (b # take n bs) @ utf8_decode_replace (drop n bs)
              else REPLACEMENT @ utf8_decode_replace (drop k bs)))"
  by pat_completeness auto
termination
  by (relation "measure length") auto

section \<open>Address descriptors\<close>

text \<open>
  \<open>data[i]\<close> raises \<open>IndexError\<close> out of range; a function that may raise returns
  \<open>error + 'a\<close>.
\<close>

datatype error = IndexError

definition index :: "bytes \<Rightarrow> nat \<Rightarrow> error + byte" where
  "index data i = (if i < length data then Inr (data ! i) else Inl IndexError)"

record address =
  type :: string
  addr :: string

text \<open>\<open>f"{data[off+i]:02x}{data[off+i+1]:02x}"\<close>, one group of an IPv6 address.\<close>

definition ipv6_group :: "bytes \<Rightarrow> nat \<Rightarrow> nat \<Rightarrow> error + string" where
  "ipv6_group data off i =
     (case index data (off + i) of
        Inl e \<Rightarrow> Inl e
      | Inr hi \<Rightarrow>
          (case index data (off + i + 1) of
             Inl e \<Rightarrow> Inl e
           | Inr lo \<Rightarrow> Inr (hex_byte hi @ hex_byte lo)))"

text \<open>A generator consumed in order: the first element that raises ends it.\<close>

fun collect :: "(error + 'a) list \<Rightarrow> error + 'a list" where
  "collect [] = Inr []"
| "collect (x # xs) =
     (case x of
        Inl e \<Rightarrow> Inl e
      | Inr v \<Rightarrow> (case collect xs of Inl e \<Rightarrow> Inl e | Inr vs \<Rightarrow> Inr (v # vs)))"

text \<open>
  One pass through the body of the \<open>while\<close> loop of \<open>parse_addresses\<close>, entered with
  \<open>off < len(data)\<close>: \<open>Inr None\<close> is \<open>break\<close>, \<open>Inr (Some (off, addrs))\<close> goes on to the
  next iteration with the new offset and list.
\<close>

definition parse_addresses_body ::
  "bytes \<Rightarrow> nat \<Rightarrow> address list \<Rightarrow> error + (nat \<times> address list) option" where
  "parse_addresses_body data off0 addrs =
     (case index data off0 of
        Inl e \<Rightarrow> Inl e
      | Inr addr_type \<Rightarrow>
          (let off = off0 + 1 in
           if addr_type = 1 then
             (if off + 6 > length data then Inr None
              else
                (let ip = join ''.'' (map (\<lambda>b. str (unat b)) (slice data off (off + 4)));
                     port = from_bytes_big (slice data (off + 4) (off + 6))
                 in Inr (Some (off + 6,
                      addrs @ [\<lparr>type = ''ipv4'', addr = ip @ '':'' @ str port\<rparr>]))))
           else if addr_type = 2 then
             (if off + 18 > length data then Inr None
              else
                (case collect (map (\<lambda>i. ipv6_group data off i) [0, 2, 4, 6, 8, 10, 12, 14]) of
                   Inl e \<Rightarrow> Inl e
                 | Inr groups \<Rightarrow>
                     (let ip = join '':'' groups;
                          port = from_bytes_big (slice data (off + 16) (off + 18))
                      in Inr (Some (off + 18,
                           addrs @ [\<lparr>type = ''ipv6'',
                                     addr = ''['' @ ip @ '']:'' @ str port\<rparr>])))))
           else if addr_type = 3 then
             (if off + 12 > length data then Inr None
              else Inr (Some (off + 12, addrs @ [\<lparr>type = ''torv2'', addr = ''torv2''\<rparr>])))
           else if addr_type = 4 then
             (if off + 37 > length data then Inr None
              else Inr (Some (off + 37,
                     addrs @ [\<lparr>type = ''torv3'', addr = ''torv3_onion''\<rparr>])))
           else if addr_type = 5 then
             (if off + 1 > length data then Inr None
              else
                (case index data off of
                   Inl e \<Rightarrow> Inl e
                 | Inr hlen_byte \<Rightarrow>
                     (let hlen = unat hlen_byte;
                          off = off + 1
                      in if off + hlen + 2 > length data then Inr None
                         else
                           (let hostname = utf8_decode_replace (slice data off (off + hlen));
                                port = from_bytes_big
                                         (slice data (off + hlen) (off + hlen + 2))
                            in Inr (Some (off + hlen + 2,
                                 addrs @ [\<lparr>type = ''dns'',
                                           addr = hostname @ '':'' @ str port\<rparr>]))))))
           else Inr None))"

function parse_addresses_loop :: "bytes \<Rightarrow> nat \<Rightarrow> address list \<Rightarrow> error + address list" where
  "parse_addresses_loop data off addrs =
     (if off < length data then
        (case parse_addresses_body data off addrs of
           Inl e \<Rightarrow> Inl e
         | Inr None \<Rightarrow> Inr addrs
         | Inr (Some (off', addrs')) \<Rightarrow> parse_addresses_loop data off' addrs')
      else Inr addrs)"
  by pat_completeness auto
termination
  by (relation "measure (\<lambda>(data, off, addrs). length data - off)")
     (auto simp: parse_addresses_body_def Let_def split: sum.splits if_splits)

declare parse_addresses_loop.simps [simp del]

definition parse_addresses :: "bytes \<Rightarrow> error + address list" where
  "parse_addresses data = parse_addresses_loop data 0 []"

section \<open>Announcements\<close>

text \<open>
  The dicts returned by the two parsers. Both have the keys \<open>flen\<close>, \<open>features_hex\<close> and
  \<open>features\<close>, which are the fields of the record that the two extend.
\<close>

record announcement =
  flen :: nat
  features_hex :: string
  features :: features

record node_announcement = announcement +
  node_id :: string
  "alias" :: string
  rgb :: string
  timestamp :: nat
  addresses :: "address list"
  addr_types :: "string list"

record channel_announcement = announcement +
  scid :: nat
  node1 :: string
  node2 :: string

text \<open>
  \<open>parse_node_announcement\<close>: \<open>Inr None\<close> is the returned \<open>None\<close>. The local variables
  that bear the name of a key are written with a final \<open>v\<close>.
\<close>

definition parse_node_announcement :: "bytes \<Rightarrow> error + node_announcement option" where
  "parse_node_announcement raw =
     (if length raw < 2 + 4 + 33 + 3 + 32 + 2 then Inr None
      else
        (let off = 0;
             flenv = from_bytes_big (slice raw off (off + 2));
             off = off + 2
         in if off + flenv + 4 + 33 + 3 + 32 + 2 > length raw then Inr None
            else
              (let featuresv = slice raw off (off + flenv);
                   off = off + flenv;
                   timestampv = from_bytes_big (slice raw off (off + 4));
                   off = off + 4;
                   node_idv = hex (slice raw off (off + 33));
                   off = off + 33;
                   rgbv = hex (slice raw off (off + 3));
                   off = off + 3;
                   aliasv = utf8_decode_replace (rstrip0 (slice raw off (off + 32)));
                   off = off + 32;
                   addrlen = from_bytes_big (slice raw off (off + 2));
                   off = off + 2;
                   addr_bytes = slice raw off (off + addrlen)
               in case parse_addresses addr_bytes of
                    Inl e \<Rightarrow> Inl e
                  | Inr addressesv \<Rightarrow>
                      Inr (Some \<lparr>flen = flenv,
                                 features_hex = (if featuresv \<noteq> [] then hex featuresv else []),
                                 features = decode_features featuresv,
                                 node_id = node_idv,
                                 alias = aliasv,
                                 rgb = ''#'' @ rgbv,
                                 timestamp = timestampv,
                                 addresses = addressesv,
                                 addr_types = map type addressesv\<rparr>))))"

text \<open>\<open>parse_channel_announcement\<close>: nothing in it can raise.\<close>

definition parse_channel_announcement :: "bytes \<Rightarrow> channel_announcement option" where
  "parse_channel_announcement raw =
     (if length raw < 2 + 32 + 8 + 33 * 4 then None
      else
        (let off = 0;
             flenv = from_bytes_big (slice raw off (off + 2));
             off = off + 2;
             featuresv = slice raw off (off + flenv);
             off = off + flenv;
             chain_hash = hex (slice raw off (off + 32));
             off = off + 32;
             scidv = from_bytes_big (slice raw off (off + 8));
             off = off + 8;
             node1v = hex (slice raw off (off + 33));
             off = off + 33;
             node2v = hex (slice raw off (off + 33))
         in Some \<lparr>flen = flenv,
                  features_hex = (if featuresv \<noteq> [] then hex featuresv else []),
                  features = decode_features featuresv,
                  scid = scidv,
                  node1 = node1v,
                  node2 = node2v\<rparr>))"

section \<open>The fingerprint index\<close>

type_synonym parsed_nodes = "(string \<times> node_announcement) list"

text \<open>
  The body of \<open>if result:\<close> in \<open>main\<close>:
  \<open>if nid not in parsed_nodes or result["timestamp"] > parsed_nodes[nid]["timestamp"]\<close>.
\<close>

definition keep_latest :: "parsed_nodes \<Rightarrow> node_announcement \<Rightarrow> parsed_nodes" where
  "keep_latest parsed_nodes result =
     (let nid = node_id result
      in case map_of parsed_nodes nid of
           None \<Rightarrow> dict_set parsed_nodes nid result
         | Some old \<Rightarrow>
             if timestamp result > timestamp old then dict_set parsed_nodes nid result
             else parsed_nodes)"

text \<open>
  The loop over the node announcement rows, on \<open>(parsed_nodes, parse_errors)\<close>; the rows
  are the payloads that \<open>decode_raw\<close> returned. A dict with keys is true, so a parsed
  result always enters the \<open>if\<close>.
\<close>

fun node_rows :: "bytes list \<Rightarrow> parsed_nodes \<times> nat \<Rightarrow> error + parsed_nodes \<times> nat" where
  "node_rows [] acc = Inr acc"
| "node_rows (raw # rows) (parsed_nodes, parse_errors) =
     (case parse_node_announcement raw of
        Inl e \<Rightarrow> Inl e
      | Inr None \<Rightarrow> node_rows rows (parsed_nodes, parse_errors + 1)
      | Inr (Some result) \<Rightarrow> node_rows rows (keep_latest parsed_nodes result, parse_errors))"

text \<open>\<open>fprint_groups.setdefault(key, []).append(nid)\<close>.\<close>

fun setdefault_append :: "('k \<times> 'v list) list \<Rightarrow> 'k \<Rightarrow> 'v \<Rightarrow> ('k \<times> 'v list) list" where
  "setdefault_append [] k v = [(k, [v])]"
| "setdefault_append ((k', vs) # d) k v =
     (if k' = k then (k', vs @ [v]) # d else (k', vs) # setdefault_append d k v)"

text \<open>The loop \<open>for nid, n in parsed_nodes.items()\<close> that builds \<open>fprint_groups\<close>.\<close>

definition fprint_groups :: "parsed_nodes \<Rightarrow> (string \<times> string list) list" where
  "fprint_groups parsed_nodes =
     foldl (\<lambda>groups (nid, n). setdefault_append groups (features_hex n) nid) [] parsed_nodes"

section \<open>The layout of a node announcement as the specification words it\<close>

text \<open>
  The specification lays a node announcement out as \<open>flen\<close>(2), \<open>features\<close>(flen),
  \<open>timestamp\<close>(4), \<open>node_id\<close>(33), \<open>rgb_color\<close>(3), \<open>alias\<close>(32), \<open>addrlen\<close>(2),
  \<open>addresses\<close>(addrlen), and calls a payload malformed when it is shorter than the fixed
  fields or when \<open>flen\<close> or \<open>addrlen\<close> would read past its end.
\<close>

definition node_flen :: "bytes \<Rightarrow> nat" where
  "node_flen raw = from_bytes_big (slice raw 0 2)"

definition node_addrlen :: "bytes \<Rightarrow> nat" where
  "node_addrlen raw =
     from_bytes_big (slice raw (2 + node_flen raw + 4 + 33 + 3 + 32)
                               (2 + node_flen raw + 4 + 33 + 3 + 32 + 2))"

definition node_malformed_spec :: "bytes \<Rightarrow> bool" where
  "node_malformed_spec raw \<longleftrightarrow>
     length raw < 2 + 4 + 33 + 3 + 32 + 2
     \<or> 2 + node_flen raw + 4 + 33 + 3 + 32 + 2 > length raw
     \<or> 2 + node_flen raw + 4 + 33 + 3 + 32 + 2 + node_addrlen raw > length raw"

section \<open>Address descriptors as the specification words them\<close>

text \<open>
  The specification's table gives each tag a body: IPv4 (tag 1) 4 address bytes and a
  2-byte port; IPv6 (tag 2) 8 groups of 2 bytes and a port; Tor v2 (tag 3) 10+2 opaque
  bytes; Tor v3 (tag 4) 35+2 opaque bytes; DNS (tag 5) a length byte, that many hostname
  bytes and a port. \<open>read_descriptor\<close> reads one descriptor from the front of the bytes
  and gives it with the bytes after it, or nothing when the tag is not one of 1 to 5 or
  the bytes left are fewer than the body. \<open>readable_descriptors\<close> are the descriptors read
  up to the first that cannot be.
\<close>

fun groups_of_2 :: "bytes \<Rightarrow> bytes list" where
  "groups_of_2 (a # b # bs) = [a, b] # groups_of_2 bs"
| "groups_of_2 bs = []"

definition read_descriptor :: "bytes \<Rightarrow> (address \<times> bytes) option" where
  "read_descriptor bs =
     (case bs of
        [] \<Rightarrow> None
      | tag # body \<Rightarrow>
          if tag = 1 then
            (if length body < 4 + 2 then None
             else Some (\<lparr>type = ''ipv4'',
                         addr = join ''.'' (map (\<lambda>b. str (unat b)) (take 4 body))
                                @ '':'' @ str (from_bytes_big (take 2 (drop 4 body)))\<rparr>,
                        drop (4 + 2) body))
          else if tag = 2 then
            (if length body < 16 + 2 then None
             else Some (\<lparr>type = ''ipv6'',
                         addr = ''['' @ join '':'' (map hex (groups_of_2 (take 16 body)))
                                @ '']:'' @ str (from_bytes_big (take 2 (drop 16 body)))\<rparr>,
                        drop (16 + 2) body))
          else if tag = 3 then
            (if length body < 10 + 2 then None
             else Some (\<lparr>type = ''torv2'', addr = ''torv2''\<rparr>, drop (10 + 2) body))
          else if tag = 4 then
            (if length body < 35 + 2 then None
             else Some (\<lparr>type = ''torv3'', addr = ''torv3_onion''\<rparr>, drop (35 + 2) body))
          else if tag = 5 then
            (case body of
               [] \<Rightarrow> None
             | len # host \<Rightarrow>
                 if length host < unat len + 2 then None
                 else Some (\<lparr>type = ''dns'',
                             addr = utf8_decode_replace (take (unat len) host)
                                    @ '':'' @ str (from_bytes_big
                                                   (take 2 (drop (unat len) host)))\<rparr>,
                            drop (unat len + 2) host))
          else None)"

function readable_descriptors :: "bytes \<Rightarrow> address list" where
  "readable_descriptors bs =
     (case read_descriptor bs of
        None \<Rightarrow> []
      | Some (a, rest) \<Rightarrow> a # readable_descriptors rest)"
  by pat_completeness auto
termination
  by (relation "measure length")
     (auto simp: read_descriptor_def split: list.splits if_splits)

declare readable_descriptors.simps [simp del]

section \<open>Members of one fingerprint group\<close>

text \<open>
  \<open>members_of\<close> are the node ids, in the order of the dict, of the records with a given
  \<open>features_hex\<close>. Two node ids are in the same group when some group lists both as
  members.
\<close>

definition members_of :: "parsed_nodes \<Rightarrow> string \<Rightarrow> string list" where
  "members_of parsed_nodes key =
     map fst (filter (\<lambda>(nid, n). features_hex n = key) parsed_nodes)"

definition same_group :: "(string \<times> string list) list \<Rightarrow> string \<Rightarrow> string \<Rightarrow> bool" where
  "same_group groups nid1 nid2 \<longleftrightarrow>
     (\<exists>(key, members) \<in> set groups. nid1 \<in> set members \<and> nid2 \<in> set members)"

section \<open>Basic facts\<close>

lemma index_Inr: "i < length data \<Longrightarrow> index data i = Inr (data ! i)"
  by (simp add: index_def)

lemma ipv6_group_Inr:
  "off + i + 1 < length data \<Longrightarrow>
   ipv6_group data off i = Inr (hex_byte (data ! (off + i)) @ hex_byte (data ! (off + i + 1)))"
  by (simp add: ipv6_group_def index_Inr)

lemma from_bytes_big_zeros: "from_bytes_big (replicate n 0) = 0"
proof -
  have "foldl (\<lambda>acc b. acc * 256 + unat (b :: byte)) 0 (replicate n 0) = 0"
    by (induction n) simp_all
  then show ?thesis by (simp add: from_bytes_big_def)
qed

lemma decode_features_loop_0: "decode_features_loop 0 bitn fs = fs"
  by (simp add: decode_features_loop.simps)

lemma decode_features_Nil: "decode_features [] = []"
  by (simp add: decode_features_def decode_features_loop_0)

lemma decode_features_zeros: "decode_features (replicate n 0) = []"
  by (simp add: decode_features_def from_bytes_big_zeros decode_features_loop_0)

text \<open>Rewriting with these evaluates a character given by its code.\<close>

lemmas char_eval = char_of_def bit_Suc_0_iff

lemma hex_byte_0: "hex_byte 0 = ''00''"
  by (simp add: hex_byte_def hex_digit_def char_eval)

lemma hex_zeros: "hex (replicate n 0) = concat (replicate n ''00'')"
  by (simp add: hex_def hex_byte_0)

lemma hex_Nil: "hex [] = []"
  by (simp add: hex_def)

lemma hex_if: "(if bs \<noteq> [] then hex bs else []) = hex bs"
  by (simp add: hex_def)

lemma rstrip0_zeros: "rstrip0 (xs @ replicate n 0) = rstrip0 xs"
proof -
  have "dropWhile (\<lambda>b. b = 0) (replicate n (0 :: byte) @ ys) = dropWhile (\<lambda>b. b = 0) ys" for ys
    by (induction n) simp_all
  then show ?thesis by (simp add: rstrip0_def)
qed

lemma rstrip0_all_zeros: "rstrip0 (replicate n 0) = []"
proof -
  have "dropWhile (\<lambda>b. b = 0) (replicate n (0 :: byte)) = []"
    by (induction n) simp_all
  then show ?thesis by (simp add: rstrip0_def)
qed

lemma rstrip0_snoc: "rstrip0 (xs @ [x]) = (if x = 0 then rstrip0 xs else xs @ [x])"
  by (simp add: rstrip0_def)

lemma foldl_from_bytes:
  "foldl (\<lambda>acc b. acc * 256 + unat (b :: byte)) a ys
   = a * 256 ^ length ys + foldl (\<lambda>acc b. acc * 256 + unat b) 0 ys"
proof (induction ys arbitrary: a)
  case Nil
  show ?case by simp
next
  case (Cons y ys)
  have "foldl (\<lambda>acc b. acc * 256 + unat b) a (y # ys)
        = (a * 256 + unat y) * 256 ^ length ys + foldl (\<lambda>acc b. acc * 256 + unat b) 0 ys"
    using Cons.IH [of "a * 256 + unat y"] by simp
  moreover have "foldl (\<lambda>acc b. acc * 256 + unat b) 0 (y # ys)
        = unat y * 256 ^ length ys + foldl (\<lambda>acc b. acc * 256 + unat b) 0 ys"
    using Cons.IH [of "unat y"] by simp
  ultimately show ?case by (simp only: length_Cons power_Suc algebra_simps)
qed

lemma from_bytes_big_append:
  "from_bytes_big (xs @ ys) = from_bytes_big xs * 256 ^ length ys + from_bytes_big ys"
  unfolding from_bytes_big_def foldl_append by (rule foldl_from_bytes)

lemma from_bytes_big_Nil: "from_bytes_big [] = 0"
  by (simp add: from_bytes_big_def)

lemma from_bytes_big_Cons:
  "from_bytes_big (b # bs) = unat b * 256 ^ length bs + from_bytes_big bs"
  unfolding from_bytes_big_def using foldl_from_bytes [of "unat b" bs] by simp

lemmas from_bytes_eval =
  from_bytes_big_Nil from_bytes_big_Cons from_bytes_big_append from_bytes_big_zeros

lemma str_digit: "n < 10 \<Longrightarrow> str n = [digit_char n]"
  by (subst str.simps) simp

lemma str_digits: "10 \<le> n \<Longrightarrow> str n = str (n div 10) @ [digit_char (n mod 10)]"
  by (subst str.simps) simp

lemmas str_eval = str_digit str_digits digit_char_def char_eval

lemma decode_features_loop_step:
  "0 < val \<Longrightarrow> decode_features_loop val bitn fs =
     decode_features_loop (val div 2) (bitn + 1)
       (if odd val then dict_set fs (feature_name bitn) (feature_kind bitn) else fs)"
  by (subst decode_features_loop.simps) (simp add: drop_bit_eq_div and_one_eq mod_2_eq_odd)

section \<open>The address parser never raises\<close>

lemma parse_addresses_body_Inr:
  assumes "off < length data"
  shows "\<exists>r. parse_addresses_body data off addrs = Inr r"
  using assms unfolding parse_addresses_body_def Let_def
  by (simp add: index_Inr ipv6_group_Inr)

lemma parse_addresses_body_advances:
  assumes "parse_addresses_body data off addrs = Inr (Some (off', addrs'))"
  shows "off < off' \<and> off' \<le> length data"
  using assms unfolding parse_addresses_body_def Let_def
  by (auto split: sum.splits if_splits)

lemma parse_addresses_loop_Inr: "\<exists>as. parse_addresses_loop data off addrs = Inr as"
proof (induction data off addrs rule: parse_addresses_loop.induct)
  case (1 data off addrs)
  show ?case
  proof (cases "off < length data")
    case False
    then show ?thesis by (simp add: parse_addresses_loop.simps)
  next
    case True
    then obtain r where r: "parse_addresses_body data off addrs = Inr r"
      using parse_addresses_body_Inr by blast
    show ?thesis
    proof (cases r)
      case None
      with True r show ?thesis by (simp add: parse_addresses_loop.simps)
    next
      case (Some p)
      obtain off' addrs' where p: "p = (off', addrs')" by (cases p)
      from "1.IH" [OF True r Some p [symmetric]] True r Some p
      show ?thesis by (simp add: parse_addresses_loop.simps [of data off])
    qed
  qed
qed

lemma parse_addresses_Inr: "\<exists>as. parse_addresses data = Inr as"
  by (simp add: parse_addresses_def parse_addresses_loop_Inr)

text \<open>
  C10. \<open>parse_addresses\<close> returns a list for every byte string: the loop is a total
  function (its termination proof is the measure \<open>len(data) - off\<close>), an iteration that
  does not leave the loop moves the offset strictly forward and not past the end, and no
  index access raises \<open>IndexError\<close>, neither in an iteration nor in the whole call.
\<close>

theorem parse_addresses_total:
  "(\<exists>addrs. parse_addresses data = Inr addrs)
   \<and> (\<forall>off addrs off' addrs'.
        parse_addresses_body data off addrs = Inr (Some (off', addrs'))
        \<longrightarrow> off + 1 \<le> off' \<and> off' \<le> length data)
   \<and> (\<forall>off addrs. off < length data
        \<longrightarrow> parse_addresses_body data off addrs \<noteq> Inl IndexError)"
proof (intro conjI allI impI)
  show "\<exists>addrs. parse_addresses data = Inr addrs"
    by (rule parse_addresses_Inr)
next
  fix off addrs off' addrs'
  assume "parse_addresses_body data off addrs = Inr (Some (off', addrs'))"
  then have "off < off' \<and> off' \<le> length data"
    by (rule parse_addresses_body_advances)
  then show "off + 1 \<le> off'" and "off' \<le> length data" by simp_all
next
  fix off addrs
  assume "off < length data"
  then obtain r where "parse_addresses_body data off addrs = Inr r"
    using parse_addresses_body_Inr by blast
  then show "parse_addresses_body data off addrs \<noteq> Inl IndexError" by simp
qed

lemma parse_addresses_body_ipv4_example:
  "parse_addresses_body [1, 0x7F, 0, 0, 1, 0x26, 0x07] 0 [] =
     Inr (Some (7, [\<lparr>type = ''ipv4'', addr = ''127.0.0.1:9735''\<rparr>]))"
  unfolding parse_addresses_body_def Let_def
  by (simp add: index_def slice_def from_bytes_eval str_eval)

theorem parse_addresses_total_witness:
  "(\<exists>addrs. parse_addresses [1, 0x7F, 0, 0, 1, 0x26, 0x07] = Inr addrs)
   \<and> parse_addresses_body [1, 0x7F, 0, 0, 1, 0x26, 0x07] 0 [] =
       Inr (Some (7, [\<lparr>type = ''ipv4'', addr = ''127.0.0.1:9735''\<rparr>]))
   \<and> (0 :: nat) + 1 \<le> 7 \<and> 7 \<le> length [1 :: byte, 0x7F, 0, 0, 1, 0x26, 0x07]
   \<and> 0 < length [1 :: byte, 0x7F, 0, 0, 1, 0x26, 0x07]
   \<and> parse_addresses_body [1, 0x7F, 0, 0, 1, 0x26, 0x07] 0 [] \<noteq> Inl IndexError"
proof -
  note total = parse_addresses_total [of "[1, 0x7F, 0, 0, 1, 0x26, 0x07]"]
  from total have "\<exists>addrs. parse_addresses [1, 0x7F, 0, 0, 1, 0x26, 0x07] = Inr addrs"
    by (rule conjunct1)
  moreover from total parse_addresses_body_ipv4_example
  have "(0 :: nat) + 1 \<le> 7 \<and> 7 \<le> length [1 :: byte, 0x7F, 0, 0, 1, 0x26, 0x07]"
    by blast
  moreover from total
  have "parse_addresses_body [1, 0x7F, 0, 0, 1, 0x26, 0x07] 0 [] \<noteq> Inl IndexError"
    by simp
  ultimately show ?thesis
    using parse_addresses_body_ipv4_example by simp
qed

section \<open>The address parser returns the readable descriptors\<close>

lemma hex_pair: "hex [a, b] = hex_byte a @ hex_byte b"
  by (simp add: hex_def)

lemma collect_map_Inr:
  "(\<And>i. i \<in> set js \<Longrightarrow> f i = Inr (g i)) \<Longrightarrow> collect (map f js) = Inr (map g js)"
  by (induction js) simp_all

lemma groups_of_2_take:
  "2 * k \<le> length xs \<Longrightarrow>
   groups_of_2 (take (2 * k) xs) = map (\<lambda>j. [xs ! (2 * j), xs ! (2 * j + 1)]) [0..<k]"
proof (induction k arbitrary: xs)
  case 0
  show ?case by simp
next
  case (Suc k)
  then obtain a b ys where xs: "xs = a # b # ys"
    by (cases xs; cases "tl xs") auto
  with Suc.prems have "2 * k \<le> length ys" by simp
  from Suc.IH [OF this]
  have "groups_of_2 (take (2 * Suc k) xs)
        = [a, b] # map (\<lambda>j. [ys ! (2 * j), ys ! (2 * j + 1)]) [0..<k]"
    by (simp add: xs)
  moreover have "map (\<lambda>j. [xs ! (2 * j), xs ! (2 * j + 1)]) [0..<Suc k]
        = [a, b] # map (\<lambda>j. [ys ! (2 * j), ys ! (2 * j + 1)]) [0..<k]"
    unfolding upt_conv_Cons [OF zero_less_Suc] map_Suc_upt [symmetric]
    by (simp add: xs)
  ultimately show ?case by simp
qed

lemma evens_upto_14: "[0, 2, 4, 6, 8, 10, 12, 14] = map (\<lambda>j. 2 * j) [0..<8 :: nat]"
  by (simp add: upt_rec)

lemma ipv6_groups_eq:
  assumes "off + 16 \<le> length data"
  shows "collect (map (\<lambda>i. ipv6_group data off i) [0, 2, 4, 6, 8, 10, 12, 14])
         = Inr (map hex (groups_of_2 (take 16 (drop off data))))"
proof -
  have "collect (map (\<lambda>i. ipv6_group data off i) (map (\<lambda>j. 2 * j) [0..<8]))
        = Inr (map (\<lambda>i. hex_byte (data ! (off + i)) @ hex_byte (data ! (off + i + 1)))
                 (map (\<lambda>j. 2 * j) [0..<8]))"
    using assms by (intro collect_map_Inr ipv6_group_Inr) auto
  moreover have "groups_of_2 (take (2 * 8) (drop off data))
        = map (\<lambda>j. [drop off data ! (2 * j), drop off data ! (2 * j + 1)]) [0..<8]"
    using assms by (intro groups_of_2_take) simp
  then have "map hex (groups_of_2 (take 16 (drop off data)))
        = map (\<lambda>i. hex_byte (data ! (off + i)) @ hex_byte (data ! (off + i + 1)))
            (map (\<lambda>j. 2 * j) [0..<8])"
    using assms by (simp add: hex_pair del: upt_Suc)
  ultimately show ?thesis
    by (simp only: evens_upto_14)
qed

lemma parse_addresses_body_read:
  assumes "off < length data"
  shows "parse_addresses_body data off addrs =
     Inr (case read_descriptor (drop off data) of
            None \<Rightarrow> None
          | Some (a, rest) \<Rightarrow> Some (length data - length rest, addrs @ [a]))"
proof -
  have d: "drop off data = data ! off # drop (Suc off) data"
    using assms by (simp add: Cons_nth_drop_Suc)
  consider (ipv4) "data ! off = 1"
    | (ipv6) "data ! off = 2" "off + 19 \<le> length data"
    | (ipv6_short) "data ! off = 2" "\<not> off + 19 \<le> length data"
    | (torv2) "data ! off = 3"
    | (torv3) "data ! off = 4"
    | (dns) "data ! off = 5" "Suc off < length data"
    | (dns_short) "data ! off = 5" "\<not> Suc off < length data"
    | (unknown) "data ! off \<notin> {1, 2, 3, 4, 5}"
    by blast
  then show ?thesis
  proof cases
    case ipv4
    with assms show ?thesis
      unfolding parse_addresses_body_def read_descriptor_def d Let_def
      by (simp add: index_Inr slice_def; arith)
  next
    case ipv6
    then have "off + 1 + 16 \<le> length data" and "\<not> length data - Suc off < 18"
      by linarith+
    from ipv6_groups_eq [OF this(1)] this(2) ipv6 assms show ?thesis
      unfolding parse_addresses_body_def read_descriptor_def d Let_def
      by (simp add: index_Inr slice_def)
  next
    case ipv6_short
    with assms show ?thesis
      unfolding parse_addresses_body_def read_descriptor_def d Let_def
      by (simp add: index_Inr slice_def; arith)
  next
    case torv2
    with assms show ?thesis
      unfolding parse_addresses_body_def read_descriptor_def d Let_def
      by (simp add: index_Inr slice_def; arith)
  next
    case torv3
    with assms show ?thesis
      unfolding parse_addresses_body_def read_descriptor_def d Let_def
      by (simp add: index_Inr slice_def; arith)
  next
    case dns
    then have d2: "drop (Suc off) data = data ! Suc off # drop (Suc (Suc off)) data"
      by (simp add: Cons_nth_drop_Suc)
    from dns assms show ?thesis
      unfolding parse_addresses_body_def read_descriptor_def d d2 Let_def
      apply (simp add: index_Inr slice_def)
      apply (simp add: add.commute [of off "unat (data ! Suc off)"])
      apply linarith
      done
  next
    case dns_short
    with assms show ?thesis
      unfolding parse_addresses_body_def read_descriptor_def d Let_def
      by (simp add: index_Inr slice_def; arith)
  next
    case unknown
    with assms show ?thesis
      unfolding parse_addresses_body_def read_descriptor_def d Let_def
      by (simp add: index_Inr slice_def; arith)
  qed
qed


lemma readable_descriptors_None:
  "read_descriptor bs = None \<Longrightarrow> readable_descriptors bs = []"
  by (simp add: readable_descriptors.simps)

lemma readable_descriptors_Some:
  "read_descriptor bs = Some (a, rest) \<Longrightarrow>
   readable_descriptors bs = a # readable_descriptors rest"
  by (simp add: readable_descriptors.simps [of bs])

lemma readable_descriptors_Nil: "readable_descriptors [] = []"
  by (simp add: readable_descriptors_None read_descriptor_def)

lemma read_descriptor_rest:
  assumes "read_descriptor bs = Some (a, rest)"
  shows "\<exists>n. 0 < n \<and> n \<le> length bs \<and> rest = drop n bs"
proof -
  from assms obtain tag body where bs: "bs = tag # body"
    by (cases bs) (simp_all add: read_descriptor_def)
  have "\<exists>m. m \<le> length body \<and> rest = drop m body"
  proof (cases "tag = 5")
    case True
    with assms obtain len host where "body = len # host"
      and "unat len + 2 \<le> length host" and "rest = drop (unat len + 2) host"
      unfolding read_descriptor_def bs
      by (auto split: list.splits if_splits)
    then have "Suc (unat len + 2) \<le> length body \<and> rest = drop (Suc (unat len + 2)) body"
      by simp
    then show ?thesis by blast
  next
    case False
    with assms have "(6 \<le> length body \<and> rest = drop 6 body)
        \<or> (18 \<le> length body \<and> rest = drop 18 body)
        \<or> (12 \<le> length body \<and> rest = drop 12 body)
        \<or> (37 \<le> length body \<and> rest = drop 37 body)"
      unfolding read_descriptor_def bs
      by (auto split: if_splits)
    then show ?thesis by blast
  qed
  then obtain m where "m \<le> length body" and "rest = drop m body" by blast
  then have "0 < Suc m \<and> Suc m \<le> length bs \<and> rest = drop (Suc m) bs"
    by (simp add: bs)
  then show ?thesis by blast
qed

lemma parse_addresses_loop_readable:
  "off \<le> length data \<Longrightarrow>
   parse_addresses_loop data off addrs = Inr (addrs @ readable_descriptors (drop off data))"
proof (induction data off addrs rule: parse_addresses_loop.induct)
  case (1 data off addrs)
  show ?case
  proof (cases "off < length data")
    case False
    with "1.prems" show ?thesis
      by (simp add: parse_addresses_loop.simps readable_descriptors_Nil)
  next
    case True
    note body = parse_addresses_body_read [OF True, of addrs]
    show ?thesis
    proof (cases "read_descriptor (drop off data)")
      case None
      with True body show ?thesis
        by (simp add: parse_addresses_loop.simps [of data off] readable_descriptors_None)
    next
      case (Some p)
      obtain a rest where p: "p = (a, rest)" by (cases p)
      from read_descriptor_rest [OF Some [unfolded p]]
      obtain n where n: "0 < n" "n \<le> length data - off" and rest: "rest = drop (n + off) data"
        by auto
      define off' where "off' = n + off"
      from n True have "length data - length rest = off'" and le: "off' \<le> length data"
        by (simp_all add: rest off'_def)
      then have b: "parse_addresses_body data off addrs = Inr (Some (off', addrs @ [a]))"
        using body Some p by simp
      from "1.IH" [OF True b refl refl le]
      have "parse_addresses_loop data off' (addrs @ [a])
            = Inr ((addrs @ [a]) @ readable_descriptors (drop off' data))" .
      moreover have "readable_descriptors (drop off data)
            = a # readable_descriptors (drop off' data)"
        using readable_descriptors_Some [OF Some [unfolded p]] by (simp add: rest off'_def)
      ultimately show ?thesis
        using True b by (simp add: parse_addresses_loop.simps [of data off])
    qed
  qed
qed

lemma parse_addresses_eq_readable: "parse_addresses data = Inr (readable_descriptors data)"
  by (simp add: parse_addresses_def parse_addresses_loop_readable)

lemma read_descriptor_3: "read_descriptor [x, y, z] = None"
  by (simp add: read_descriptor_def)

lemma read_descriptor_ipv4:
  "read_descriptor (1 # a # b # c # d # p # q # rest) =
     Some (\<lparr>type = ''ipv4'',
            addr = join ''.'' (map (\<lambda>b. str (unat b)) [a, b, c, d])
                   @ '':'' @ str (from_bytes_big [p, q])\<rparr>, rest)"
  by (simp add: read_descriptor_def)

lemma readable_ipv4_3:
  "readable_descriptors [1, a, b, c, d, p, q, x, y, z] =
     [\<lparr>type = ''ipv4'',
       addr = join ''.'' (map (\<lambda>b. str (unat b)) [a, b, c, d])
              @ '':'' @ str (from_bytes_big [p, q])\<rparr>]"
  by (simp add: readable_descriptors_Some [OF read_descriptor_ipv4]
      readable_descriptors_None [OF read_descriptor_3])

text \<open>
  C6. For every address-list byte string \<open>parse_addresses\<close> returns, without raising, the
  descriptors that can be read in full from the front, and stops at the first position
  where the tag is not one of 1 to 5 or the bytes left are fewer than the body of the
  descriptor. In particular a complete IPv4 descriptor followed by any 3 bytes gives
  exactly that one address.
\<close>

theorem parse_addresses_readable_descriptors:
  "parse_addresses data = Inr (readable_descriptors data)
   \<and> parse_addresses [1, a, b, c, d, p, q, x, y, z] =
       Inr [\<lparr>type = ''ipv4'',
             addr = join ''.'' (map (\<lambda>b. str (unat b)) [a, b, c, d])
                    @ '':'' @ str (from_bytes_big [p, q])\<rparr>]"
  by (simp only: parse_addresses_eq_readable readable_ipv4_3 simp_thms)

theorem parse_addresses_readable_descriptors_witness:
  "parse_addresses [1, 0x7F, 0, 0, 1, 0x26, 0x07, 0x01, 0x02, 0x03] =
     Inr [\<lparr>type = ''ipv4'', addr = ''127.0.0.1:9735''\<rparr>]"
  using parse_addresses_readable_descriptors
          [where a = "0x7F" and b = 0 and c = 0 and d = 1 and p = "0x26" and q = "0x07"
             and x = "0x01" and y = "0x02" and z = "0x03", THEN conjunct2]
  by (simp add: from_bytes_eval str_eval)

section \<open>What the announcement parsers return\<close>

lemma parse_addresses_Nil: "parse_addresses [] = Inr []"
  by (simp add: parse_addresses_def parse_addresses_loop.simps)

lemma parse_node_announcement_eq:
  assumes F: "from_bytes_big (slice raw 0 2) = F"
    and A: "from_bytes_big (slice raw (F + 74) (F + 76)) = A"
  shows "parse_node_announcement raw =
     (if length raw < F + 76 then Inr None
      else case parse_addresses (slice raw (F + 76) (F + 76 + A)) of
        Inl e \<Rightarrow> Inl e
      | Inr addrs \<Rightarrow>
         Inr (Some \<lparr>flen = F,
                    features_hex = hex (slice raw 2 (F + 2)),
                    features = decode_features (slice raw 2 (F + 2)),
                    node_id = hex (slice raw (F + 6) (F + 39)),
                    alias = utf8_decode_replace (rstrip0 (slice raw (F + 42) (F + 74))),
                    rgb = ''#'' @ hex (slice raw (F + 39) (F + 42)),
                    timestamp = from_bytes_big (slice raw (F + 2) (F + 6)),
                    addresses = addrs,
                    addr_types = map type addrs\<rparr>))"
  using A unfolding parse_node_announcement_def Let_def add_0 F
  by (simp add: hex_if hex_Nil add.commute split: sum.split)

lemma parse_channel_announcement_eq:
  assumes F: "from_bytes_big (slice raw 0 2) = F"
  shows "parse_channel_announcement raw =
     (if length raw < 174 then None
      else Some \<lparr>flen = F,
                 features_hex = hex (slice raw 2 (F + 2)),
                 features = decode_features (slice raw 2 (F + 2)),
                 scid = from_bytes_big (slice raw (F + 34) (F + 42)),
                 node1 = hex (slice raw (F + 42) (F + 75)),
                 node2 = hex (slice raw (F + 75) (F + 108))\<rparr>)"
  unfolding parse_channel_announcement_def Let_def add_0 F
  by (simp add: hex_if hex_Nil add.commute)

lemma node_addrlen_eq:
  "node_addrlen raw = from_bytes_big (slice raw (node_flen raw + 74) (node_flen raw + 76))"
  by (simp add: node_addrlen_def add.commute)

lemma parse_node_announcement_short:
  assumes "length raw < node_flen raw + 76"
  shows "parse_node_announcement raw = Inr None"
  using assms parse_node_announcement_eq [of raw "node_flen raw", OF _ refl]
  by (simp add: node_flen_def)

lemma parse_node_announcement_long:
  assumes "\<not> length raw < node_flen raw + 76"
  shows "\<exists>n. parse_node_announcement raw = Inr (Some n) \<and> flen n = node_flen raw
     \<and> features n = decode_features (slice raw 2 (node_flen raw + 2))
     \<and> features_hex n = hex (slice raw 2 (node_flen raw + 2))
     \<and> parse_addresses (take (node_addrlen raw) (drop (node_flen raw + 76) raw))
         = Inr (addresses n)"
proof -
  obtain addrs where addrs:
    "parse_addresses (slice raw (node_flen raw + 76) (node_flen raw + 76 + node_addrlen raw))
      = Inr addrs"
    using parse_addresses_Inr by blast
  have "parse_node_announcement raw =
     Inr (Some \<lparr>flen = node_flen raw,
                features_hex = hex (slice raw 2 (node_flen raw + 2)),
                features = decode_features (slice raw 2 (node_flen raw + 2)),
                node_id = hex (slice raw (node_flen raw + 6) (node_flen raw + 39)),
                alias = utf8_decode_replace
                          (rstrip0 (slice raw (node_flen raw + 42) (node_flen raw + 74))),
                rgb = ''#'' @ hex (slice raw (node_flen raw + 39) (node_flen raw + 42)),
                timestamp = from_bytes_big (slice raw (node_flen raw + 2) (node_flen raw + 6)),
                addresses = addrs,
                addr_types = map type addrs\<rparr>)"
    using assms addrs
      parse_node_announcement_eq [of raw "node_flen raw" "node_addrlen raw"]
    by (simp add: node_flen_def [symmetric] node_addrlen_eq [symmetric])
  moreover have "parse_addresses (take (node_addrlen raw) (drop (node_flen raw + 76) raw))
      = Inr addrs"
    using addrs by (simp add: slice_def)
  ultimately show ?thesis by simp
qed

lemma parse_node_announcement_zeros_addrlen:
  "parse_node_announcement (replicate 74 0 @ [0, 5]) =
     Inr (Some \<lparr>flen = 0, features_hex = [], features = [],
                node_id = concat (replicate 33 ''00''), alias = [],
                rgb = ''#'' @ concat (replicate 3 ''00''), timestamp = 0,
                addresses = [], addr_types = []\<rparr>)"
proof -
  let ?raw = "replicate 74 0 @ [0, 5] :: bytes"
  have F: "from_bytes_big (slice ?raw 0 2) = 0"
    by (simp add: slice_def from_bytes_eval)
  have A: "from_bytes_big (slice ?raw (0 + 74) (0 + 76)) = 5"
    by (simp add: slice_def from_bytes_eval)
  show ?thesis
    unfolding parse_node_announcement_eq [OF F A]
    by (simp add: slice_def parse_addresses_Nil hex_Nil decode_features_Nil hex_zeros
        from_bytes_eval rstrip0_all_zeros)
qed

section \<open>The node announcement of the specification's example\<close>

lemma decode_features_0002: "decode_features [0, 2] = [(''data_loss_protect'', ''optional'')]"
  by (simp add: decode_features_def from_bytes_eval decode_features_loop_step
      decode_features_loop_0 feature_name_def FEATURE_BITS_def feature_kind_def)

lemma parse_addresses_ipv4_cut: "parse_addresses [1, 0x7F, 0, 0, 1, 0x26] = Inr []"
  by (simp add: parse_addresses_eq_readable readable_descriptors_None read_descriptor_def)

lemma parse_addresses_ipv4_whole:
  "parse_addresses [1, 0x7F, 0, 0, 1, 0x26, 0x07] =
     Inr [\<lparr>type = ''ipv4'', addr = ''127.0.0.1:9735''\<rparr>]"
  by (simp add: parse_addresses_eq_readable readable_descriptors_Some [OF read_descriptor_ipv4]
      readable_descriptors_Nil from_bytes_eval str_eval)

lemma utf8_decode_replace_Test: "utf8_decode_replace [0x54, 0x65, 0x73, 0x74] = ''Test''"
  by (simp add: byte_char_def char_eval)

lemma hex_0002: "hex [0, 2] = ''0002''"
  by (simp add: hex_def hex_byte_def hex_digit_def char_eval)

lemma concat_3_zeros: "concat (replicate 3 ''00'') = ''000000''"
  by (simp add: numeral_3_eq_3)

lemma rstrip0_Test:
  "rstrip0 (0x54 # 0x65 # 0x73 # 0x74 # replicate n 0) = [0x54, 0x65, 0x73, 0x74]"
  using rstrip0_zeros [of "[0x54, 0x65, 0x73, 0x74]" n] by (simp add: rstrip0_def)

lemma parse_node_announcement_example:
  "parse_node_announcement
     ([0, 2, 0, 2, 0, 0, 0, 1] @ replicate 33 0 @ replicate 3 0
      @ [0x54, 0x65, 0x73, 0x74] @ replicate 28 0 @ [0, 6, 1, 0x7F, 0, 0, 1, 0x26, 0x07]) =
     Inr (Some \<lparr>flen = 2, features_hex = ''0002'',
                features = [(''data_loss_protect'', ''optional'')],
                node_id = concat (replicate 33 ''00''), alias = ''Test'',
                rgb = ''#000000'', timestamp = 1,
                addresses = [], addr_types = []\<rparr>)"
proof -
  let ?raw = "[0, 2, 0, 2, 0, 0, 0, 1] @ replicate 33 0 @ replicate 3 0
      @ [0x54, 0x65, 0x73, 0x74] @ replicate 28 0 @ [0, 6, 1, 0x7F, 0, 0, 1, 0x26, 0x07] :: bytes"
  have F: "from_bytes_big (slice ?raw 0 2) = 2"
    by (simp add: slice_def from_bytes_eval)
  have A: "from_bytes_big (slice ?raw (2 + 74) (2 + 76)) = 6"
    by (simp add: slice_def from_bytes_eval)
  show ?thesis
    unfolding parse_node_announcement_eq [OF F A]
    by (simp add: slice_def parse_addresses_ipv4_cut decode_features_0002 hex_0002 hex_zeros
        concat_3_zeros from_bytes_eval rstrip0_Test utf8_decode_replace_Test
        del: utf8_decode_replace.simps)
qed

lemma parse_node_announcement_example_7:
  "parse_node_announcement
     ([0, 2, 0, 2, 0, 0, 0, 1] @ replicate 33 0 @ replicate 3 0
      @ [0x54, 0x65, 0x73, 0x74] @ replicate 28 0 @ [0, 7, 1, 0x7F, 0, 0, 1, 0x26, 0x07]) =
     Inr (Some \<lparr>flen = 2, features_hex = ''0002'',
                features = [(''data_loss_protect'', ''optional'')],
                node_id = concat (replicate 33 ''00''), alias = ''Test'',
                rgb = ''#000000'', timestamp = 1,
                addresses = [\<lparr>type = ''ipv4'', addr = ''127.0.0.1:9735''\<rparr>],
                addr_types = [''ipv4'']\<rparr>)"
proof -
  let ?raw = "[0, 2, 0, 2, 0, 0, 0, 1] @ replicate 33 0 @ replicate 3 0
      @ [0x54, 0x65, 0x73, 0x74] @ replicate 28 0 @ [0, 7, 1, 0x7F, 0, 0, 1, 0x26, 0x07] :: bytes"
  have F: "from_bytes_big (slice ?raw 0 2) = 2"
    by (simp add: slice_def from_bytes_eval)
  have A: "from_bytes_big (slice ?raw (2 + 74) (2 + 76)) = 7"
    by (simp add: slice_def from_bytes_eval)
  show ?thesis
    unfolding parse_node_announcement_eq [OF F A]
    by (simp add: slice_def parse_addresses_ipv4_whole decode_features_0002 hex_0002 hex_zeros
        concat_3_zeros from_bytes_eval rstrip0_Test utf8_decode_replace_Test
        del: utf8_decode_replace.simps)
qed

text \<open>
  C8, as stated, fails. The payload of the example is 85 bytes long and its \<open>addrlen\<close> is
  6, one byte short of the IPv4 descriptor of 7 bytes (tag, 4 address bytes, port) that
  follows: the address slice ends before the last byte of the port, and the list of
  addresses of the record is empty, not the one address of the claim.
\<close>

theorem parse_node_announcement_example_counterexample:
  "parse_node_announcement
     ([0, 2, 0, 2, 0, 0, 0, 1] @ replicate 33 0 @ replicate 3 0
      @ [0x54, 0x65, 0x73, 0x74] @ replicate 28 0 @ [0, 6, 1, 0x7F, 0, 0, 1, 0x26, 0x07]) =
     Inr (Some \<lparr>flen = 2, features_hex = ''0002'',
                features = [(''data_loss_protect'', ''optional'')],
                node_id = concat (replicate 33 ''00''), alias = ''Test'',
                rgb = ''#000000'', timestamp = 1,
                addresses = [], addr_types = []\<rparr>)
   \<and> addresses \<lparr>flen = 2, features_hex = ''0002'',
                features = [(''data_loss_protect'', ''optional'')],
                node_id = concat (replicate 33 ''00''), alias = ''Test'',
                rgb = ''#000000'', timestamp = 1,
                addresses = [], addr_types = []\<rparr>
       \<noteq> [\<lparr>type = ''ipv4'', addr = ''127.0.0.1:9735''\<rparr>]"
  using parse_node_announcement_example by simp

text \<open>
  C8, amended. On the payload of the example \<open>parse_node_announcement\<close> returns a record
  with \<open>flen\<close> 2, features mapping \<open>data_loss_protect\<close> to \<open>optional\<close>, timestamp 1, alias
  \<open>Test\<close> and no address. On the same payload with an \<open>addrlen\<close> of 7, which covers the
  whole descriptor, the addresses are the one-element list of the IPv4 address
  \<open>127.0.0.1:9735\<close>.
\<close>

theorem parse_node_announcement_example_addresses:
  "(\<exists>n. parse_node_announcement
          ([0, 2, 0, 2, 0, 0, 0, 1] @ replicate 33 0 @ replicate 3 0
           @ [0x54, 0x65, 0x73, 0x74] @ replicate 28 0
           @ [0, 6, 1, 0x7F, 0, 0, 1, 0x26, 0x07]) = Inr (Some n)
        \<and> flen n = 2 \<and> features n = [(''data_loss_protect'', ''optional'')]
        \<and> timestamp n = 1 \<and> alias n = ''Test'' \<and> addresses n = [])
   \<and> (\<exists>n. parse_node_announcement
          ([0, 2, 0, 2, 0, 0, 0, 1] @ replicate 33 0 @ replicate 3 0
           @ [0x54, 0x65, 0x73, 0x74] @ replicate 28 0
           @ [0, 7, 1, 0x7F, 0, 0, 1, 0x26, 0x07]) = Inr (Some n)
        \<and> flen n = 2 \<and> features n = [(''data_loss_protect'', ''optional'')]
        \<and> timestamp n = 1 \<and> alias n = ''Test''
        \<and> addresses n = [\<lparr>type = ''ipv4'', addr = ''127.0.0.1:9735''\<rparr>])"
  using parse_node_announcement_example parse_node_announcement_example_7 by simp

section \<open>When a node announcement is malformed\<close>

text \<open>
  C2, as stated, fails. The 76 bytes that are 74 zero bytes followed by \<open>00 05\<close> have a
  \<open>flen\<close> of 0 and an \<open>addrlen\<close> of 5 with no byte after it: the specification's condition
  calls the payload malformed, and \<open>parse_node_announcement\<close> returns a record.
\<close>

theorem parse_node_announcement_addrlen_counterexample:
  "node_malformed_spec (replicate 74 0 @ [0, 5])
   \<and> parse_node_announcement (replicate 74 0 @ [0, 5]) \<noteq> Inr None"
proof -
  have "node_flen (replicate 74 0 @ [0, 5]) = 0"
    by (simp add: node_flen_def slice_def from_bytes_eval)
  moreover from this have "node_addrlen (replicate 74 0 @ [0, 5]) = 5"
    by (simp add: node_addrlen_def slice_def from_bytes_eval)
  ultimately have "node_malformed_spec (replicate 74 0 @ [0, 5])"
    by (simp add: node_malformed_spec_def)
  then show ?thesis
    by (simp add: parse_node_announcement_zeros_addrlen)
qed

text \<open>
  C2, amended. \<open>parse_node_announcement\<close> never raises. It returns \<open>None\<close> exactly when the
  payload is shorter than the fixed fields (2+4+33+3+32+2 bytes) or \<open>flen\<close> would make the
  read of the fixed fields pass its end. In every other case it returns a record, also
  when \<open>addrlen\<close> passes the end of the payload: the addresses are then parsed from the
  address bytes that are there.
\<close>

theorem parse_node_announcement_None_iff:
  "(parse_node_announcement raw = Inr None)
     = (length raw < 2 + 4 + 33 + 3 + 32 + 2
        \<or> 2 + node_flen raw + 4 + 33 + 3 + 32 + 2 > length raw)
   \<and> (\<not> (length raw < 2 + 4 + 33 + 3 + 32 + 2
          \<or> 2 + node_flen raw + 4 + 33 + 3 + 32 + 2 > length raw)
       \<longrightarrow> (\<exists>n. parse_node_announcement raw = Inr (Some n)
              \<and> flen n = node_flen raw
              \<and> parse_addresses (take (node_addrlen raw) (drop (node_flen raw + 76) raw))
                  = Inr (addresses n)))"
proof (cases "length raw < node_flen raw + 76")
  case True
  then show ?thesis
    using parse_node_announcement_short [of raw] by simp
next
  case False
  then obtain n where "parse_node_announcement raw = Inr (Some n)"
    and "flen n = node_flen raw"
    and "parse_addresses (take (node_addrlen raw) (drop (node_flen raw + 76) raw))
          = Inr (addresses n)"
    using parse_node_announcement_long [of raw] by blast
  with False show ?thesis by auto
qed

theorem parse_node_announcement_None_iff_witness:
  "\<not> (length (replicate 74 0 @ [0, 5 :: byte]) < 2 + 4 + 33 + 3 + 32 + 2
       \<or> 2 + node_flen (replicate 74 0 @ [0, 5]) + 4 + 33 + 3 + 32 + 2
           > length (replicate 74 0 @ [0, 5 :: byte]))
   \<and> (\<exists>n. parse_node_announcement (replicate 74 0 @ [0, 5]) = Inr (Some n)
          \<and> flen n = node_flen (replicate 74 0 @ [0, 5])
          \<and> parse_addresses (take (node_addrlen (replicate 74 0 @ [0, 5]))
                (drop (node_flen (replicate 74 0 @ [0, 5]) + 76) (replicate 74 0 @ [0, 5])))
              = Inr (addresses n))"
proof -
  have F: "node_flen (replicate 74 0 @ [0, 5]) = 0"
    by (simp add: node_flen_def slice_def from_bytes_eval)
  then have "\<not> (length (replicate 74 0 @ [0, 5 :: byte]) < 2 + 4 + 33 + 3 + 32 + 2
       \<or> 2 + node_flen (replicate 74 0 @ [0, 5]) + 4 + 33 + 3 + 32 + 2
           > length (replicate 74 0 @ [0, 5 :: byte]))"
    by simp
  with parse_node_announcement_None_iff [of "replicate 74 0 @ [0, 5]"]
  show ?thesis by blast
qed

section \<open>The fingerprint index keeps the latest record of each node\<close>

lemma map_of_dict_set: "map_of (dict_set d k v) = (map_of d)(k \<mapsto> v)"
  by (induction d k v rule: dict_set.induct) auto

lemma keys_dict_set: "fst ` set (dict_set d k v) = insert k (fst ` set d)"
  by (induction d k v rule: dict_set.induct) auto

lemma distinct_dict_set:
  "distinct (map fst d) \<Longrightarrow> distinct (map fst (dict_set d k v))"
proof (induction d k v rule: dict_set.induct)
  case (1 k v)
  show ?case by simp
next
  case (2 k' v' d k v)
  then show ?case
    using keys_dict_set [of d k v] by (auto simp del: keys_dict_set)
qed

lemma map_of_keep_latest:
  "map_of (keep_latest parsed_nodes result) =
     (case map_of parsed_nodes (node_id result) of
        None \<Rightarrow> (map_of parsed_nodes)(node_id result \<mapsto> result)
      | Some old \<Rightarrow>
          if timestamp result > timestamp old
          then (map_of parsed_nodes)(node_id result \<mapsto> result)
          else map_of parsed_nodes)"
  by (simp add: keep_latest_def map_of_dict_set split: option.split)

lemma distinct_keep_latest:
  "distinct (map fst parsed_nodes) \<Longrightarrow> distinct (map fst (keep_latest parsed_nodes result))"
  by (simp add: keep_latest_def Let_def distinct_dict_set split: option.split)

lemma distinct_foldl_keep_latest:
  "distinct (map fst acc) \<Longrightarrow> distinct (map fst (foldl keep_latest acc rs))"
  by (induction rs arbitrary: acc) (simp_all add: distinct_keep_latest)

lemma keep_latest_survivor:
  "(map_of (foldl keep_latest [] rs) nid = None \<longleftrightarrow> nid \<notin> node_id ` set rs)
   \<and> (\<forall>r. map_of (foldl keep_latest [] rs) nid = Some r \<longrightarrow>
        (\<exists>pre post. rs = pre @ r # post \<and> node_id r = nid
           \<and> (\<forall>r'\<in>set pre. node_id r' = nid \<longrightarrow> timestamp r' < timestamp r)
           \<and> (\<forall>r'\<in>set post. node_id r' = nid \<longrightarrow> timestamp r' \<le> timestamp r)))"
proof (induction rs rule: rev_induct)
  case Nil
  show ?case by simp
next
  case (snoc x rs)
  let ?idx = "foldl keep_latest [] rs"
  show ?case
  proof (cases "node_id x = nid")
    case False
    then have same: "map_of (foldl keep_latest [] (rs @ [x])) nid = map_of ?idx nid"
      by (simp add: map_of_keep_latest split: option.split)
    have "\<exists>pre post. rs @ [x] = pre @ r # post \<and> node_id r = nid
           \<and> (\<forall>r'\<in>set pre. node_id r' = nid \<longrightarrow> timestamp r' < timestamp r)
           \<and> (\<forall>r'\<in>set post. node_id r' = nid \<longrightarrow> timestamp r' \<le> timestamp r)"
      if "map_of ?idx nid = Some r" for r
    proof -
      from snoc that obtain pre post where "rs = pre @ r # post" "node_id r = nid"
        "\<forall>r'\<in>set pre. node_id r' = nid \<longrightarrow> timestamp r' < timestamp r"
        "\<forall>r'\<in>set post. node_id r' = nid \<longrightarrow> timestamp r' \<le> timestamp r"
        by blast
      with False have "rs @ [x] = pre @ r # (post @ [x]) \<and> node_id r = nid
           \<and> (\<forall>r'\<in>set pre. node_id r' = nid \<longrightarrow> timestamp r' < timestamp r)
           \<and> (\<forall>r'\<in>set (post @ [x]). node_id r' = nid \<longrightarrow> timestamp r' \<le> timestamp r)"
        by auto
      then show ?thesis by blast
    qed
    with same False snoc show ?thesis by auto
  next
    case True
    show ?thesis
    proof (cases "map_of ?idx nid")
      case None
      with snoc have no: "\<forall>r'\<in>set rs. node_id r' \<noteq> nid" by auto
      from None True have new: "map_of (foldl keep_latest [] (rs @ [x])) nid = Some x"
        by (simp add: map_of_keep_latest)
      from no True have "rs @ [x] = rs @ x # [] \<and> node_id x = nid
           \<and> (\<forall>r'\<in>set rs. node_id r' = nid \<longrightarrow> timestamp r' < timestamp x)
           \<and> (\<forall>r'\<in>set []. node_id r' = nid \<longrightarrow> timestamp r' \<le> timestamp x)"
        by auto
      then have "\<exists>pre post. rs @ [x] = pre @ x # post \<and> node_id x = nid
           \<and> (\<forall>r'\<in>set pre. node_id r' = nid \<longrightarrow> timestamp r' < timestamp x)
           \<and> (\<forall>r'\<in>set post. node_id r' = nid \<longrightarrow> timestamp r' \<le> timestamp x)"
        by blast
      with new True show ?thesis by auto
    next
      case (Some old)
      with snoc obtain pre post where old: "rs = pre @ old # post" "node_id old = nid"
        "\<forall>r'\<in>set pre. node_id r' = nid \<longrightarrow> timestamp r' < timestamp old"
        "\<forall>r'\<in>set post. node_id r' = nid \<longrightarrow> timestamp r' \<le> timestamp old"
        by blast
      show ?thesis
      proof (cases "timestamp x > timestamp old")
        case newer: True
        with Some True have new: "map_of (foldl keep_latest [] (rs @ [x])) nid = Some x"
          by (simp add: map_of_keep_latest)
        from old newer have "\<forall>r'\<in>set rs. node_id r' = nid \<longrightarrow> timestamp r' < timestamp x"
          by fastforce
        with True have "rs @ [x] = rs @ x # [] \<and> node_id x = nid
           \<and> (\<forall>r'\<in>set rs. node_id r' = nid \<longrightarrow> timestamp r' < timestamp x)
           \<and> (\<forall>r'\<in>set []. node_id r' = nid \<longrightarrow> timestamp r' \<le> timestamp x)"
          by simp
        then have "\<exists>pre post. rs @ [x] = pre @ x # post \<and> node_id x = nid
           \<and> (\<forall>r'\<in>set pre. node_id r' = nid \<longrightarrow> timestamp r' < timestamp x)
           \<and> (\<forall>r'\<in>set post. node_id r' = nid \<longrightarrow> timestamp r' \<le> timestamp x)"
          by blast
        with new True show ?thesis by auto
      next
        case False
        with Some True have keep: "map_of (foldl keep_latest [] (rs @ [x])) nid = Some old"
          by (simp add: map_of_keep_latest)
        from old False have "rs @ [x] = pre @ old # (post @ [x]) \<and> node_id old = nid
           \<and> (\<forall>r'\<in>set pre. node_id r' = nid \<longrightarrow> timestamp r' < timestamp old)
           \<and> (\<forall>r'\<in>set (post @ [x]). node_id r' = nid \<longrightarrow> timestamp r' \<le> timestamp old)"
          by auto
        then have "\<exists>pre' post'. rs @ [x] = pre' @ old # post' \<and> node_id old = nid
           \<and> (\<forall>r'\<in>set pre'. node_id r' = nid \<longrightarrow> timestamp r' < timestamp old)
           \<and> (\<forall>r'\<in>set post'. node_id r' = nid \<longrightarrow> timestamp r' \<le> timestamp old)"
          by blast
        with keep True show ?thesis by auto
      qed
    qed
  qed
qed

lemma keep_latest_lookup:
  "map_of (keep_latest parsed_nodes result) k =
     (if k = node_id result then
        (case map_of parsed_nodes k of
           None \<Rightarrow> Some result
         | Some old \<Rightarrow> if timestamp result > timestamp old then Some result else Some old)
      else map_of parsed_nodes k)"
  by (simp add: map_of_keep_latest split: option.split)

lemma keep_latest_commute:
  assumes "node_id r1 \<noteq> node_id r2 \<or> timestamp r1 \<noteq> timestamp r2"
  shows "map_of (keep_latest (keep_latest acc r1) r2) = map_of (keep_latest (keep_latest acc r2) r1)"
proof (rule ext)
  fix k
  show "map_of (keep_latest (keep_latest acc r1) r2) k
        = map_of (keep_latest (keep_latest acc r2) r1) k"
  proof (cases "map_of acc k")
    case None
    with assms show ?thesis
      by (auto simp: keep_latest_lookup)
  next
    case (Some old)
    with assms show ?thesis
      by (auto simp: keep_latest_lookup)
  qed
qed


lemma keep_latest_tie:
  assumes "node_id r1 = node_id r2 \<and> timestamp r1 = timestamp r2"
  shows "keep_latest (keep_latest acc r1) r2 = keep_latest acc r1"
proof -
  have "\<exists>x. map_of (keep_latest acc r1) (node_id r2) = Some x
          \<and> timestamp r1 \<le> timestamp x"
    using assms by (cases "map_of acc (node_id r1)") (auto simp: keep_latest_lookup)
  then obtain x where "map_of (keep_latest acc r1) (node_id r2) = Some x"
    and "timestamp r1 \<le> timestamp x"
    by blast
  with assms show ?thesis
    by (simp add: keep_latest_def [of "keep_latest acc r1"])
qed

lemma parse_node_announcement_alias_only:
  assumes "c \<noteq> 0" and "c < 0x80"
  shows "parse_node_announcement (replicate 42 0 @ [c] @ replicate 33 0) =
     Inr (Some \<lparr>flen = 0, features_hex = [], features = [],
                node_id = concat (replicate 33 ''00''), alias = [byte_char c],
                rgb = ''#000000'', timestamp = 0,
                addresses = [], addr_types = []\<rparr>)"
proof -
  let ?raw = "replicate 42 0 @ [c] @ replicate 33 0"
  have F: "from_bytes_big (slice ?raw 0 2) = 0"
    by (simp add: slice_def from_bytes_eval)
  have A: "from_bytes_big (slice ?raw (0 + 74) (0 + 76)) = 0"
    by (simp add: slice_def from_bytes_eval)
  have R: "rstrip0 (c # replicate 31 0) = [c]"
    using assms rstrip0_zeros [of "[c]" 31] by (simp add: rstrip0_def)
  show ?thesis
    unfolding parse_node_announcement_eq [OF F A]
    using assms
    by (simp add: slice_def parse_addresses_Nil hex_Nil decode_features_Nil hex_zeros
        concat_3_zeros from_bytes_eval R)
qed

lemma node_rows_tie:
  assumes "a \<noteq> 0" "a < 0x80" "b \<noteq> 0" "b < 0x80"
  shows "node_rows [replicate 42 0 @ [a] @ replicate 33 0,
                    replicate 42 0 @ [b] @ replicate 33 0] ([], 0) =
     Inr ([(concat (replicate 33 ''00''),
            \<lparr>flen = 0, features_hex = [], features = [],
                node_id = concat (replicate 33 ''00''), alias = [byte_char a],
                rgb = ''#000000'', timestamp = 0,
                addresses = [], addr_types = []\<rparr>)], 0)"
  unfolding node_rows.simps parse_node_announcement_alias_only [OF assms(1,2)]
    parse_node_announcement_alias_only [OF assms(3,4)]
  by (simp add: keep_latest_def Let_def)

lemma node_rows_foldl:
  "\<exists>errors. node_rows rows (parsed_nodes, parse_errors) =
     Inr (foldl keep_latest parsed_nodes
            (List.map_filter
               (\<lambda>raw. case parse_node_announcement raw of Inr result \<Rightarrow> result | Inl e \<Rightarrow> None)
               rows),
          errors)"
proof (induction rows arbitrary: parsed_nodes parse_errors)
  case Nil
  show ?case by (simp add: List.map_filter_simps)
next
  case (Cons raw rows)
  show ?case
  proof (cases "length raw < node_flen raw + 76")
    case True
    then have "parse_node_announcement raw = Inr None"
      by (rule parse_node_announcement_short)
    with Cons [of parsed_nodes "parse_errors + 1"] show ?thesis
      by (simp add: List.map_filter_simps)
  next
    case False
    then obtain n where "parse_node_announcement raw = Inr (Some n)"
      using parse_node_announcement_long [of raw] by blast
    with Cons [of "keep_latest parsed_nodes n" parse_errors] show ?thesis
      by (simp add: List.map_filter_simps)
  qed
qed

text \<open>
  C5, as stated, fails. Two payloads of 76 bytes that differ only in the first byte of the
  alias, \<open>A\<close> in one and \<open>B\<close> in the other, decode to two records with the same node id
  and the same timestamp. Fed to the loop of \<open>main\<close> in one order the record that survives
  has the alias \<open>A\<close>, in the other order the alias \<open>B\<close>: the first one inserted stays.
\<close>

theorem keep_latest_tie_counterexample:
  "map_option alias
     (map_of (fst (projr (node_rows [replicate 42 0 @ [0x41] @ replicate 33 0,
                                     replicate 42 0 @ [0x42] @ replicate 33 0] ([], 0))))
        (concat (replicate 33 ''00''))) = Some ''A''
   \<and> map_option alias
     (map_of (fst (projr (node_rows [replicate 42 0 @ [0x42] @ replicate 33 0,
                                     replicate 42 0 @ [0x41] @ replicate 33 0] ([], 0))))
        (concat (replicate 33 ''00''))) = Some ''B''"
proof -
  have "node_rows [replicate 42 0 @ [0x41] @ replicate 33 0,
                   replicate 42 0 @ [0x42] @ replicate 33 0] ([], 0) =
     Inr ([(concat (replicate 33 ''00''),
            \<lparr>flen = 0, features_hex = [], features = [],
                node_id = concat (replicate 33 ''00''), alias = [byte_char 0x41],
                rgb = ''#000000'', timestamp = 0,
                addresses = [], addr_types = []\<rparr>)], 0)"
    by (rule node_rows_tie) simp_all
  moreover have "node_rows [replicate 42 0 @ [0x42] @ replicate 33 0,
                   replicate 42 0 @ [0x41] @ replicate 33 0] ([], 0) =
     Inr ([(concat (replicate 33 ''00''),
            \<lparr>flen = 0, features_hex = [], features = [],
                node_id = concat (replicate 33 ''00''), alias = [byte_char 0x42],
                rgb = ''#000000'', timestamp = 0,
                addresses = [], addr_types = []\<rparr>)], 0)"
    by (rule node_rows_tie) simp_all
  ultimately show ?thesis
    by (simp add: byte_char_def char_eval)
qed

text \<open>
  C5, amended. Read as dicts, that is as mappings from node id to record, the results
  of inserting two records in either order into any accumulator are equal whenever the
  two differ in node id or in timestamp. When they have the same node id and the same
  timestamp, the one inserted second changes nothing, so the order decides which of the
  two survives. The same holds of whole sequences: two sequences with the same records,
  no two of which tie, give the same mapping in any order.
\<close>

theorem keep_latest_order:
  "(node_id r1 \<noteq> node_id r2 \<or> timestamp r1 \<noteq> timestamp r2 \<longrightarrow>
      map_of (keep_latest (keep_latest acc r1) r2) = map_of (keep_latest (keep_latest acc r2) r1))
   \<and> (node_id r1 = node_id r2 \<and> timestamp r1 = timestamp r2 \<longrightarrow>
      keep_latest (keep_latest acc r1) r2 = keep_latest acc r1)
   \<and> ((\<forall>r\<in>set rs. \<forall>r'\<in>set rs. node_id r = node_id r' \<and> timestamp r = timestamp r' \<longrightarrow> r = r')
        \<and> set rs' = set rs \<longrightarrow>
      map_of (foldl keep_latest [] rs') = map_of (foldl keep_latest [] rs))"
proof (intro conjI impI)
  assume "node_id r1 \<noteq> node_id r2 \<or> timestamp r1 \<noteq> timestamp r2"
  then show "map_of (keep_latest (keep_latest acc r1) r2)
             = map_of (keep_latest (keep_latest acc r2) r1)"
    by (rule keep_latest_commute)
next
  assume "node_id r1 = node_id r2 \<and> timestamp r1 = timestamp r2"
  then show "keep_latest (keep_latest acc r1) r2 = keep_latest acc r1"
    by (rule keep_latest_tie)
next
  assume a: "(\<forall>r\<in>set rs. \<forall>r'\<in>set rs. node_id r = node_id r' \<and> timestamp r = timestamp r' \<longrightarrow> r = r')
        \<and> set rs' = set rs"
  show "map_of (foldl keep_latest [] rs') = map_of (foldl keep_latest [] rs)"
  proof (rule ext)
    fix nid
    show "map_of (foldl keep_latest [] rs') nid = map_of (foldl keep_latest [] rs) nid"
    proof (cases "map_of (foldl keep_latest [] rs) nid")
      case None
      then have "nid \<notin> node_id ` set rs'"
        using keep_latest_survivor [of rs nid] a by simp
      then have "map_of (foldl keep_latest [] rs') nid = None"
        using keep_latest_survivor [of rs' nid] by simp
      with None show ?thesis by simp
    next
      case (Some r)
      then have r: "r \<in> set rs" "node_id r = nid"
        "\<forall>x\<in>set rs. node_id x = nid \<longrightarrow> timestamp x \<le> timestamp r"
        using keep_latest_survivor [of rs nid] by fastforce+
      then have "nid \<in> node_id ` set rs'" using a by auto
      then obtain r' where r': "map_of (foldl keep_latest [] rs') nid = Some r'"
        using keep_latest_survivor [of rs' nid] by fastforce
      then have "r' \<in> set rs'" "node_id r' = nid"
        "\<forall>x\<in>set rs'. node_id x = nid \<longrightarrow> timestamp x \<le> timestamp r'"
        using keep_latest_survivor [of rs' nid] by fastforce+
      with r a have "r' = r"
        by (metis le_antisym)
      with r' Some show ?thesis by simp
    qed
  qed
qed


theorem keep_latest_order_witness:
  "let A = \<lparr>flen = 0, features_hex = [], features = [], node_id = ''02aa'', alias = ''a'',
            rgb = ''#000000'', timestamp = 100, addresses = [], addr_types = []\<rparr>;
       B = A\<lparr>timestamp := 200\<rparr>
   in (node_id A \<noteq> node_id B \<or> timestamp A \<noteq> timestamp B)
      \<and> map_of (keep_latest (keep_latest [] A) B) = map_of (keep_latest (keep_latest [] B) A)
      \<and> (node_id A = node_id A \<and> timestamp A = timestamp A)
      \<and> keep_latest (keep_latest [] A) A = keep_latest [] A
      \<and> (\<forall>r\<in>set [A, B]. \<forall>r'\<in>set [A, B].
            node_id r = node_id r' \<and> timestamp r = timestamp r' \<longrightarrow> r = r')
      \<and> set [B, A] = set [A, B]
      \<and> map_of (foldl keep_latest [] [B, A]) = map_of (foldl keep_latest [] [A, B])"
proof -
  define A where "A = \<lparr>flen = 0, features_hex = [], features = [], node_id = ''02aa'',
    alias = ''a'', rgb = ''#000000'', timestamp = 100, addresses = [], addr_types = []\<rparr>"
  define B where "B = A\<lparr>timestamp := 200\<rparr>"
  have ne: "node_id A \<noteq> node_id B \<or> timestamp A \<noteq> timestamp B"
    by (simp add: A_def B_def)
  have tie: "node_id A = node_id A \<and> timestamp A = timestamp A"
    by simp
  have perm: "(\<forall>r\<in>set [A, B]. \<forall>r'\<in>set [A, B].
            node_id r = node_id r' \<and> timestamp r = timestamp r' \<longrightarrow> r = r')
      \<and> set [B, A] = set [A, B]"
    by (auto simp: A_def B_def)
  note order = keep_latest_order [of A B "[]" "[A, B]" "[B, A]"]
  from order ne
  have 1: "map_of (keep_latest (keep_latest [] A) B) = map_of (keep_latest (keep_latest [] B) A)"
    by blast
  from keep_latest_order [of A A "[]" "[A, B]" "[B, A]"] tie
  have 2: "keep_latest (keep_latest [] A) A = keep_latest [] A"
    by blast
  from order perm
  have 3: "map_of (foldl keep_latest [] [B, A]) = map_of (foldl keep_latest [] [A, B])"
    by blast
  from ne 1 tie 2 perm 3 show ?thesis
    unfolding Let_def A_def [symmetric] B_def [symmetric] by blast
qed

text \<open>
  C4. In the index built from any sequence of decoded records each node id occurs at most
  once, exactly the node ids of the sequence occur, and the record kept for a node id is
  a record of the sequence with that node id whose timestamp no record of that node
  exceeds and every earlier record of that node is strictly below. In particular two
  records of one node with the timestamps 100 and 200 leave, in either order, one record
  with the timestamp 200.
\<close>

theorem keep_latest_greatest_timestamp:
  "distinct (map fst (foldl keep_latest [] rs))
   \<and> (\<forall>nid. (map_of (foldl keep_latest [] rs) nid = None) = (nid \<notin> node_id ` set rs))
   \<and> (\<forall>nid r. map_of (foldl keep_latest [] rs) nid = Some r \<longrightarrow>
         r \<in> set rs \<and> node_id r = nid
         \<and> (\<forall>r'\<in>set rs. node_id r' = nid \<longrightarrow> timestamp r' \<le> timestamp r)
         \<and> (\<exists>pre post. rs = pre @ r # post
               \<and> (\<forall>r'\<in>set pre. node_id r' = nid \<longrightarrow> timestamp r' < timestamp r)))
   \<and> (\<forall>r1 r2. node_id r1 = node_id r2 \<and> timestamp r1 = 100 \<and> timestamp r2 = 200 \<longrightarrow>
         map (timestamp \<circ> snd) (foldl keep_latest [] [r1, r2]) = [200]
         \<and> map (timestamp \<circ> snd) (foldl keep_latest [] [r2, r1]) = [200])"
proof (intro conjI allI impI)
  show "distinct (map fst (foldl keep_latest [] rs))"
    by (rule distinct_foldl_keep_latest) simp
next
  fix nid
  show "(map_of (foldl keep_latest [] rs) nid = None) = (nid \<notin> node_id ` set rs)"
    using keep_latest_survivor [of rs nid] by blast
next
  fix nid r
  assume "map_of (foldl keep_latest [] rs) nid = Some r"
  then obtain pre post where s: "rs = pre @ r # post" "node_id r = nid"
    "\<forall>r'\<in>set pre. node_id r' = nid \<longrightarrow> timestamp r' < timestamp r"
    "\<forall>r'\<in>set post. node_id r' = nid \<longrightarrow> timestamp r' \<le> timestamp r"
    using keep_latest_survivor [of rs nid] by blast
  from s show "r \<in> set rs" and "node_id r = nid" by simp_all
  from s show "\<forall>r'\<in>set rs. node_id r' = nid \<longrightarrow> timestamp r' \<le> timestamp r"
    by fastforce
  from s show "\<exists>pre post. rs = pre @ r # post
               \<and> (\<forall>r'\<in>set pre. node_id r' = nid \<longrightarrow> timestamp r' < timestamp r)"
    by blast
next
  fix r1 r2 :: node_announcement
  assume "node_id r1 = node_id r2 \<and> timestamp r1 = 100 \<and> timestamp r2 = 200"
  then show "map (timestamp \<circ> snd) (foldl keep_latest [] [r1, r2]) = [200]"
    and "map (timestamp \<circ> snd) (foldl keep_latest [] [r2, r1]) = [200]"
    by (simp_all add: keep_latest_def Let_def)
qed

theorem keep_latest_greatest_timestamp_witness:
  "let A = \<lparr>flen = 0, features_hex = [], features = [], node_id = ''02aa'', alias = ''a'',
            rgb = ''#000000'', timestamp = 100, addresses = [], addr_types = []\<rparr>;
       B = A\<lparr>timestamp := 200\<rparr>
   in map_of (foldl keep_latest [] [B, A]) ''02aa'' = Some B
      \<and> B \<in> set [B, A] \<and> node_id B = ''02aa''
      \<and> (\<forall>r'\<in>set [B, A]. node_id r' = ''02aa'' \<longrightarrow> timestamp r' \<le> timestamp B)
      \<and> node_id A = node_id B \<and> timestamp A = 100 \<and> timestamp B = 200
      \<and> map (timestamp \<circ> snd) (foldl keep_latest [] [A, B]) = [200]
      \<and> map (timestamp \<circ> snd) (foldl keep_latest [] [B, A]) = [200]"
proof -
  define A where "A = \<lparr>flen = 0, features_hex = [], features = [], node_id = ''02aa'',
    alias = ''a'', rgb = ''#000000'', timestamp = 100, addresses = [], addr_types = []\<rparr>"
  define B where "B = A\<lparr>timestamp := 200\<rparr>"
  have h: "map_of (foldl keep_latest [] [B, A]) ''02aa'' = Some B"
    by (simp add: keep_latest_def Let_def A_def B_def)
  have t: "node_id A = node_id B \<and> timestamp A = 100 \<and> timestamp B = 200"
    by (simp add: A_def B_def)
  note g = keep_latest_greatest_timestamp [of "[B, A]"]
  from g h have 1: "B \<in> set [B, A] \<and> node_id B = ''02aa''
      \<and> (\<forall>r'\<in>set [B, A]. node_id r' = ''02aa'' \<longrightarrow> timestamp r' \<le> timestamp B)"
    by blast
  from g t have 2: "map (timestamp \<circ> snd) (foldl keep_latest [] [A, B]) = [200]
      \<and> map (timestamp \<circ> snd) (foldl keep_latest [] [B, A]) = [200]"
    by blast
  from h 1 t 2 show ?thesis
    unfolding Let_def A_def [symmetric] B_def [symmetric] by blast
qed

section \<open>The names and levels of the set feature bits\<close>

lemma digit_char_inj:
  assumes "a < 10" "b < 10" "digit_char a = digit_char b"
  shows "a = b"
proof -
  from assms(3) have "(of_char (digit_char a) :: nat) = of_char (digit_char b)"
    by simp
  with assms(1,2) show ?thesis
    by (simp add: digit_char_def of_char_of)
qed

lemma str_not_Nil: "str n \<noteq> []"
  by (subst str.simps) simp

lemma str_inj: "str n = str m \<Longrightarrow> n = m"
proof (induction n arbitrary: m rule: str.induct)
  case (1 n)
  show ?case
  proof (cases "n < 10")
    case n: True
    show ?thesis
    proof (cases "m < 10")
      case True
      with n "1.prems" show ?thesis
        by (simp add: str_digit digit_char_inj)
    next
      case False
      with n "1.prems" show ?thesis
        using str_not_Nil [of "m div 10"] by (simp add: str_digit str_digits)
    qed
  next
    case n: False
    show ?thesis
    proof (cases "m < 10")
      case True
      with n "1.prems" show ?thesis
        using str_not_Nil [of "n div 10"] by (simp add: str_digit str_digits)
    next
      case False
      with n "1.prems" have "str (n div 10) = str (m div 10)"
        and "digit_char (n mod 10) = digit_char (m mod 10)"
        by (simp_all add: str_digits)
      with "1.IH" [OF n, of "m div 10"] have "n div 10 = m div 10" and "n mod 10 = m mod 10"
        by (simp_all add: digit_char_inj)
      then show ?thesis
        by (metis div_mult_mod_eq)
    qed
  qed
qed

lemma FEATURE_BITS_not_unknown:
  "map_of FEATURE_BITS b = Some s \<Longrightarrow> s \<noteq> ''unknown_bit_'' @ t"
  by (auto simp: FEATURE_BITS_def split: if_splits)

lemma FEATURE_BITS_pairs:
  "\<forall>(k, s) \<in> set FEATURE_BITS. \<forall>(k', s') \<in> set FEATURE_BITS. s = s' \<longrightarrow> k div 2 = k' div 2"
  by (simp add: FEATURE_BITS_def)

lemma FEATURE_BITS_odd:
  "\<forall>(k, s) \<in> set FEATURE_BITS. even k \<longrightarrow> map_of FEATURE_BITS (k + 1) = Some s"
  by (simp add: FEATURE_BITS_def)

lemma feature_name_eq:
  assumes "feature_name b = feature_name b'"
  shows "b = b' \<or> (b div 2 = b' div 2 \<and> map_of FEATURE_BITS b \<noteq> None)"
proof (cases "map_of FEATURE_BITS b")
  case None
  show ?thesis
  proof (cases "map_of FEATURE_BITS b'")
    case None
    with \<open>map_of FEATURE_BITS b = None\<close> assms show ?thesis
      by (simp add: feature_name_def str_inj)
  next
    case (Some s)
    with None assms FEATURE_BITS_not_unknown [OF Some, of "str b"] show ?thesis
      by (simp add: feature_name_def)
  qed
next
  case (Some s)
  show ?thesis
  proof (cases "map_of FEATURE_BITS b'")
    case None
    with Some assms FEATURE_BITS_not_unknown [OF Some, of "str b'"] show ?thesis
      by (simp add: feature_name_def)
  next
    case Some': (Some s')
    from Some Some' assms have "s = s'" by (simp add: feature_name_def)
    moreover from Some have "(b, s) \<in> set FEATURE_BITS" by (rule map_of_SomeD)
    moreover from Some' have "(b', s') \<in> set FEATURE_BITS" by (rule map_of_SomeD)
    ultimately have "b div 2 = b' div 2"
      using FEATURE_BITS_pairs by fastforce
    with Some show ?thesis by simp
  qed
qed

lemma feature_name_pair:
  assumes "even b" and "map_of FEATURE_BITS b \<noteq> None"
  shows "feature_name (b + 1) = feature_name b"
proof -
  from assms(2) obtain s where s: "map_of FEATURE_BITS b = Some s" by blast
  then have "(b, s) \<in> set FEATURE_BITS" by (rule map_of_SomeD)
  with assms(1) have "map_of FEATURE_BITS (b + 1) = Some s"
    using FEATURE_BITS_odd by fastforce
  with s show ?thesis by (simp add: feature_name_def)
qed

lemma decode_features_loop_absent:
  "(\<And>i. bit val i \<Longrightarrow> feature_name (bitn + i) \<noteq> name) \<Longrightarrow>
   map_of (decode_features_loop val bitn fs) name = map_of fs name"
proof (induction val arbitrary: bitn fs rule: less_induct)
  case (less val)
  show ?case
  proof (cases "0 < val")
    case False
    then show ?thesis by (simp add: decode_features_loop_0)
  next
    case True
    let ?fs = "if odd val then dict_set fs (feature_name bitn) (feature_kind bitn) else fs"
    from True have "val div 2 < val" by simp
    then have "map_of (decode_features_loop (val div 2) (bitn + 1) ?fs) name = map_of ?fs name"
    proof (rule less.IH)
      fix i
      assume "bit (val div 2) i"
      then have "bit val (Suc i)" by (simp add: bit_Suc)
      from less.prems [OF this] show "feature_name (bitn + 1 + i) \<noteq> name" by simp
    qed
    moreover have "map_of ?fs name = map_of fs name"
    proof (cases "odd val")
      case True
      then have "bit val 0" by (simp add: bit_0)
      from less.prems [OF this] True show ?thesis
        by (simp add: map_of_dict_set)
    next
      case False
      then show ?thesis by simp
    qed
    ultimately show ?thesis
      using True by (simp add: decode_features_loop_step)
  qed
qed

lemma decode_features_loop_last:
  "bit val i \<Longrightarrow> feature_name (bitn + i) = name \<Longrightarrow>
   (\<And>j. i < j \<Longrightarrow> bit val j \<Longrightarrow> feature_name (bitn + j) \<noteq> name) \<Longrightarrow>
   map_of (decode_features_loop val bitn fs) name = Some (feature_kind (bitn + i))"
proof (induction i arbitrary: val bitn fs)
  case 0
  then have odd: "odd val" by (simp add: bit_0)
  then have pos: "0 < val" by (cases val) simp_all
  have "map_of (decode_features_loop (val div 2) (bitn + 1)
            (dict_set fs (feature_name bitn) (feature_kind bitn))) name
        = map_of (dict_set fs (feature_name bitn) (feature_kind bitn)) name"
  proof (rule decode_features_loop_absent)
    fix j
    assume "bit (val div 2) j"
    then have "bit val (Suc j)" by (simp add: bit_Suc)
    from "0.prems"(3) [OF _ this] show "feature_name (bitn + 1 + j) \<noteq> name" by simp
  qed
  with odd pos "0.prems"(2) show ?case
    by (simp add: decode_features_loop_step map_of_dict_set)
next
  case (Suc i)
  from Suc.prems(1) have b: "bit (val div 2) i" by (simp add: bit_Suc)
  from Suc.prems(1) have pos: "0 < val" by (cases val) simp_all
  let ?fs = "if odd val then dict_set fs (feature_name bitn) (feature_kind bitn) else fs"
  have "map_of (decode_features_loop (val div 2) (bitn + 1) ?fs) name
        = Some (feature_kind (bitn + 1 + i))"
  proof (rule Suc.IH [OF b])
    from Suc.prems(2) show "feature_name (bitn + 1 + i) = name" by simp
  next
    fix j
    assume "i < j" and "bit (val div 2) j"
    then have "Suc i < Suc j" and "bit val (Suc j)" by (simp_all add: bit_Suc)
    from Suc.prems(3) [OF this] show "feature_name (bitn + 1 + j) \<noteq> name" by simp
  qed
  with pos show ?case
    by (simp add: decode_features_loop_step)
qed

lemma distinct_decode_features_loop:
  "distinct (map fst fs) \<Longrightarrow> distinct (map fst (decode_features_loop val bitn fs))"
proof (induction val arbitrary: bitn fs rule: less_induct)
  case (less val)
  show ?case
  proof (cases "0 < val")
    case False
    with less.prems show ?thesis by (simp add: decode_features_loop_0)
  next
    case True
    then have "val div 2 < val" by simp
    from less.IH [OF this] less.prems True show ?thesis
      by (simp add: decode_features_loop_step distinct_dict_set)
  qed
qed

lemma keys_decode_features_loop:
  "name \<in> fst ` set (decode_features_loop val bitn fs) \<Longrightarrow>
   name \<in> fst ` set fs \<or> (\<exists>i. bit val i \<and> feature_name (bitn + i) = name)"
proof (induction val arbitrary: bitn fs rule: less_induct)
  case (less val)
  show ?case
  proof (cases "0 < val")
    case False
    with less.prems show ?thesis by (simp add: decode_features_loop_0)
  next
    case True
    let ?fs = "if odd val then dict_set fs (feature_name bitn) (feature_kind bitn) else fs"
    from True have "val div 2 < val" by simp
    moreover from less.prems True
    have "name \<in> fst ` set (decode_features_loop (val div 2) (bitn + 1) ?fs)"
      by (simp add: decode_features_loop_step)
    ultimately have "name \<in> fst ` set ?fs
        \<or> (\<exists>i. bit (val div 2) i \<and> feature_name (bitn + 1 + i) = name)"
      by (rule less.IH)
    then show ?thesis
    proof
      assume "name \<in> fst ` set ?fs"
      then have "name \<in> fst ` set fs \<or> (odd val \<and> feature_name bitn = name)"
        by (auto simp: keys_dict_set split: if_splits)
      then show ?thesis
      proof
        assume "odd val \<and> feature_name bitn = name"
        then have "bit val 0 \<and> feature_name (bitn + 0) = name" by (simp add: bit_0)
        then show ?thesis by blast
      qed simp
    next
      assume "\<exists>i. bit (val div 2) i \<and> feature_name (bitn + 1 + i) = name"
      then obtain i where "bit (val div 2) i" "feature_name (bitn + 1 + i) = name" by blast
      then have "bit val (Suc i) \<and> feature_name (bitn + Suc i) = name"
        by (simp add: bit_Suc)
      then show ?thesis by blast
    qed
  qed
qed


lemma decode_features_eq:
  "decode_features feat_bytes = decode_features_loop (from_bytes_big feat_bytes) 0 []"
  by (simp add: decode_features_def from_bytes_big_Nil)

lemma bit_nat_bound: "bit (n :: nat) i \<Longrightarrow> i < n"
proof -
  assume "bit n i"
  then have "n div 2 ^ i \<noteq> 0" by (auto simp: bit_iff_odd dest: odd_pos)
  then have "2 ^ i \<le> n" by (simp add: div_eq_0_iff not_less)
  with less_exp [of i] show ?thesis by (rule less_le_trans)
qed

lemma last_bit_of_name:
  assumes "bit (val :: nat) i" and "feature_name i = name"
  shows "\<exists>k. bit val k \<and> feature_name k = name
            \<and> (\<forall>j. k < j \<longrightarrow> bit val j \<longrightarrow> feature_name j \<noteq> name)"
proof -
  let ?S = "{k. bit val k \<and> feature_name k = name}"
  have "?S \<subseteq> {..<val}" using bit_nat_bound by auto
  then have fin: "finite ?S" by (rule finite_subset) simp
  from assms have ne: "?S \<noteq> {}" by auto
  from Max_in [OF fin ne] have "bit val (Max ?S) \<and> feature_name (Max ?S) = name" by simp
  moreover have "feature_name j \<noteq> name" if "Max ?S < j" "bit val j" for j
  proof
    assume "feature_name j = name"
    with that(2) have "j \<in> ?S" by simp
    from Max_ge [OF fin this] that(1) show False by simp
  qed
  ultimately show ?thesis by blast
qed

lemma decode_features_pairs:
  assumes "(name, level) \<in> set (decode_features feat_bytes)"
  shows "\<exists>b. bit (from_bytes_big feat_bytes) b \<and> name = feature_name b
             \<and> level = feature_kind b"
proof -
  let ?val = "from_bytes_big feat_bytes"
  have d: "distinct (map fst (decode_features feat_bytes))"
    unfolding decode_features_eq by (rule distinct_decode_features_loop) simp
  with assms have m: "map_of (decode_features feat_bytes) name = Some level" by simp
  from assms have "name \<in> fst ` set (decode_features_loop ?val 0 [])"
    unfolding decode_features_eq by force
  then obtain i where "bit ?val i" "feature_name i = name"
    using keys_decode_features_loop [of name ?val 0 "[]"] by auto
  from last_bit_of_name [OF this] obtain k where k: "bit ?val k" "feature_name k = name"
    "\<forall>j. k < j \<longrightarrow> bit ?val j \<longrightarrow> feature_name j \<noteq> name"
    by blast
  then have "map_of (decode_features_loop ?val 0 []) name = Some (feature_kind (0 + k))"
    by (intro decode_features_loop_last) simp_all
  with m have "level = feature_kind k" by (simp add: decode_features_eq)
  with k show ?thesis by blast
qed

lemma decode_features_level_of_bit:
  assumes "bit (from_bytes_big feat_bytes) b"
  shows "map_of (decode_features feat_bytes) (feature_name b) =
     Some (if even b \<and> map_of FEATURE_BITS b \<noteq> None \<and> bit (from_bytes_big feat_bytes) (b + 1)
           then ''optional'' else feature_kind b)"
proof (cases "even b \<and> map_of FEATURE_BITS b \<noteq> None \<and> bit (from_bytes_big feat_bytes) (b + 1)")
  case True
  let ?val = "from_bytes_big feat_bytes"
  have "map_of (decode_features_loop ?val 0 []) (feature_name b)
        = Some (feature_kind (0 + (b + 1)))"
  proof (rule decode_features_loop_last)
    from True show "bit ?val (b + 1)" by simp
    from True show "feature_name (0 + (b + 1)) = feature_name b"
      using feature_name_pair [of b] by simp
  next
    fix j
    assume j: "b + 1 < j"
    show "feature_name (0 + j) \<noteq> feature_name b"
    proof
      assume "feature_name (0 + j) = feature_name b"
      then have "j = b \<or> j div 2 = b div 2"
        using feature_name_eq [of j b] by auto
      with j True show False by (auto elim!: evenE)
    qed
  qed
  moreover from True have "even b" by simp
  then have "(b + 1) mod 2 = 1" by presburger
  then have "feature_kind (0 + (b + 1)) = ''optional''"
    by (simp add: feature_kind_def)
  ultimately show ?thesis
    using True by (simp add: decode_features_eq)
next
  case False
  let ?val = "from_bytes_big feat_bytes"
  have "map_of (decode_features_loop ?val 0 []) (feature_name b)
        = Some (feature_kind (0 + b))"
  proof (rule decode_features_loop_last)
    from assms show "bit ?val b" .
    show "feature_name (0 + b) = feature_name b" by simp
  next
    fix j
    assume j: "b < j" "bit ?val j"
    show "feature_name (0 + j) \<noteq> feature_name b"
    proof
      assume "feature_name (0 + j) = feature_name b"
      then have "b = j \<or> (b div 2 = j div 2 \<and> map_of FEATURE_BITS b \<noteq> None)"
        using feature_name_eq [of b j] by auto
      with j(1) have "b div 2 = j div 2" and t: "map_of FEATURE_BITS b \<noteq> None" by auto
      with j(1) have "even b \<and> j = b + 1" by presburger
      with j(2) t False show False by simp
    qed
  qed
  with False show ?thesis
    by (auto simp: decode_features_eq)
qed

lemma decode_features_3: "decode_features [3] = [(''data_loss_protect'', ''optional'')]"
  by (simp add: decode_features_def from_bytes_eval decode_features_loop_step
      decode_features_loop_0 feature_name_def FEATURE_BITS_def feature_kind_def)

text \<open>
  C3, as stated, fails. In the one-byte bitmap \<open>03\<close> the bits 0 and 1 are set, both named
  \<open>data_loss_protect\<close> in the table. The dict returned has one pair for the two bits, and
  the level stored under the name is \<open>optional\<close>: the pair of the even bit 0, level
  \<open>compulsory\<close>, is not in it.
\<close>

theorem decode_features_pair_counterexample:
  "bit (from_bytes_big [3]) 0 \<and> bit (from_bytes_big [3]) 1
   \<and> feature_name 0 = ''data_loss_protect'' \<and> feature_kind 0 = ''compulsory''
   \<and> decode_features [3] = [(''data_loss_protect'', ''optional'')]"
  by (simp add: decode_features_3 from_bytes_eval bit_0 bit_Suc [of _ 0, simplified]
      feature_name_def FEATURE_BITS_def feature_kind_def)

text \<open>
  C3, amended. \<open>decode_features\<close> is a total function of the feature bytes. The dict it
  returns has each name once; every pair in it is the name and the level of a set bit;
  and the name of every set bit \<open>b\<close> is a key, the table entry of \<open>b\<close> or
  \<open>unknown_bit_<b>\<close>. The level stored under it is \<open>optional\<close> if and only if \<open>b\<close> is
  odd, unless \<open>b\<close> is an even bit of the table whose odd partner \<open>b + 1\<close> is set too: the
  two bits of such a pair share one name and give one pair, whose level is \<open>optional\<close>.
\<close>

theorem decode_features_set_bits:
  "distinct (map fst (decode_features feat_bytes))
   \<and> (\<forall>name level. (name, level) \<in> set (decode_features feat_bytes) \<longrightarrow>
        (\<exists>b. bit (from_bytes_big feat_bytes) b \<and> name = feature_name b
              \<and> level = feature_kind b))
   \<and> (\<forall>b. bit (from_bytes_big feat_bytes) b \<longrightarrow>
        map_of (decode_features feat_bytes) (feature_name b) =
          Some (if even b \<and> map_of FEATURE_BITS b \<noteq> None
                   \<and> bit (from_bytes_big feat_bytes) (b + 1)
                then ''optional'' else feature_kind b))
   \<and> (\<forall>b. (feature_kind b = ''optional'') = odd b)"
proof (intro conjI allI impI)
  show "distinct (map fst (decode_features feat_bytes))"
    unfolding decode_features_eq by (rule distinct_decode_features_loop) simp
next
  fix name level
  assume "(name, level) \<in> set (decode_features feat_bytes)"
  then show "\<exists>b. bit (from_bytes_big feat_bytes) b \<and> name = feature_name b
                  \<and> level = feature_kind b"
    by (rule decode_features_pairs)
next
  fix b
  assume "bit (from_bytes_big feat_bytes) b"
  then show "map_of (decode_features feat_bytes) (feature_name b) =
          Some (if even b \<and> map_of FEATURE_BITS b \<noteq> None
                   \<and> bit (from_bytes_big feat_bytes) (b + 1)
                then ''optional'' else feature_kind b)"
    by (rule decode_features_level_of_bit)
next
  fix b
  show "(feature_kind b = ''optional'') = odd b"
    by (simp add: feature_kind_def even_iff_mod_2_eq_zero)
qed

theorem decode_features_set_bits_witness:
  "bit (from_bytes_big [0, 2]) 1
   \<and> map_of (decode_features [0, 2]) (feature_name 1) = Some ''optional''
   \<and> (''data_loss_protect'', ''optional'') \<in> set (decode_features [0, 2])
   \<and> (\<exists>b. bit (from_bytes_big [0, 2]) b \<and> ''data_loss_protect'' = feature_name b
           \<and> ''optional'' = feature_kind b)"
proof -
  have b: "bit (from_bytes_big [0, 2]) 1"
    by (simp add: from_bytes_eval bit_Suc [of _ 0, simplified] bit_0)
  have m: "(''data_loss_protect'', ''optional'') \<in> set (decode_features [0, 2])"
    by (simp add: decode_features_0002)
  note t = decode_features_set_bits [of "[0, 2]"]
  from t b have "map_of (decode_features [0, 2]) (feature_name 1) =
      Some (if even (1 :: nat) \<and> map_of FEATURE_BITS 1 \<noteq> None
                   \<and> bit (from_bytes_big [0, 2]) (1 + 1)
                then ''optional'' else feature_kind 1)"
    by blast
  then have 1: "map_of (decode_features [0, 2]) (feature_name 1) = Some ''optional''"
    by (simp add: feature_kind_def)
  from t m have 2: "\<exists>b. bit (from_bytes_big [0, 2]) b \<and> ''data_loss_protect'' = feature_name b
           \<and> ''optional'' = feature_kind b"
    by blast
  from b 1 m 2 show ?thesis by blast
qed

section \<open>Fingerprint groups\<close>

lemma hex_digit_inj:
  assumes "d1 < 16" "d2 < 16" "hex_digit d1 = hex_digit d2"
  shows "d1 = d2"
proof -
  from assms(3) have "(of_char (hex_digit d1) :: nat) = of_char (hex_digit d2)"
    by simp
  with assms(1,2) show ?thesis
    by (auto simp: hex_digit_def of_char_of split: if_splits)
qed

lemma hex_byte_inj:
  assumes "hex_byte a = hex_byte b"
  shows "a = b"
proof -
  have "unat a < 256" and "unat b < 256"
    using unsigned_less [of a] unsigned_less [of b] by simp_all
  with assms have "unat a div 16 = unat b div 16" and "unat a mod 16 = unat b mod 16"
    by (auto simp: hex_byte_def intro!: hex_digit_inj)
  then have "unat a = unat b"
    by (metis div_mult_mod_eq)
  then show ?thesis by (simp add: word_unat_eq_iff)
qed

lemma hex_Cons: "hex (b # bs) = hex_byte b @ hex bs"
  by (simp add: hex_def)

lemma length_hex_byte: "length (hex_byte b) = 2"
  by (simp add: hex_byte_def)

lemma hex_inj: "hex a = hex b \<Longrightarrow> a = b"
proof (induction a arbitrary: b)
  case Nil
  then show ?case
    by (cases b) (simp_all add: hex_Nil hex_Cons hex_byte_def)
next
  case (Cons x xs)
  show ?case
  proof (cases b)
    case Nil
    with Cons.prems show ?thesis
      by (simp add: hex_Nil hex_Cons hex_byte_def)
  next
    case (Cons y ys)
    with Cons.prems have "hex_byte x @ hex xs = hex_byte y @ hex ys"
      by (simp add: hex_Cons)
    then have "hex_byte x = hex_byte y" and "hex xs = hex ys"
      by (simp_all add: length_hex_byte)
    with Cons.IH [of ys] Cons show ?thesis
      by (simp add: hex_byte_inj)
  qed
qed

lemma map_of_setdefault_append:
  "map_of (setdefault_append d k v) =
     (map_of d)(k \<mapsto> (case map_of d k of None \<Rightarrow> [v] | Some vs \<Rightarrow> vs @ [v]))"
  by (induction d k v rule: setdefault_append.induct) auto

lemma keys_setdefault_append:
  "fst ` set (setdefault_append d k v) = insert k (fst ` set d)"
  by (induction d k v rule: setdefault_append.induct) auto

lemma distinct_setdefault_append:
  "distinct (map fst d) \<Longrightarrow> distinct (map fst (setdefault_append d k v))"
proof (induction d k v rule: setdefault_append.induct)
  case (1 k v)
  show ?case by simp
next
  case (2 k' vs d k v)
  then show ?case
    using keys_setdefault_append [of d k v] by auto
qed

lemma mset_setdefault_append:
  "mset (concat (map snd (setdefault_append d k v))) = add_mset v (mset (concat (map snd d)))"
  by (induction d k v rule: setdefault_append.induct) auto

lemma fprint_groups_foldl:
  "map_of (foldl (\<lambda>groups (nid, n). setdefault_append groups (features_hex n) nid) g pn) key =
     (case map_of g key of
        None \<Rightarrow> if members_of pn key = [] then None else Some (members_of pn key)
      | Some vs \<Rightarrow> Some (vs @ members_of pn key))"
proof (induction pn arbitrary: g)
  case Nil
  show ?case by (simp add: members_of_def split: option.split)
next
  case (Cons p pn)
  obtain nid n where p: "p = (nid, n)" by (cases p)
  show ?case
    unfolding p foldl_Cons prod.case Cons.IH
    by (simp add: map_of_setdefault_append members_of_def split: option.split)
qed

lemma distinct_fprint_groups_foldl:
  "distinct (map fst g) \<Longrightarrow>
   distinct (map fst (foldl (\<lambda>groups (nid, n). setdefault_append groups (features_hex n) nid) g pn))"
  by (induction pn arbitrary: g) (auto simp: distinct_setdefault_append)

lemma mset_fprint_groups_foldl:
  "mset (concat (map snd
      (foldl (\<lambda>groups (nid, n). setdefault_append groups (features_hex n) nid) g pn)))
   = mset (concat (map snd g)) + mset (map fst pn)"
  by (induction pn arbitrary: g) (auto simp: mset_setdefault_append)

lemma distinct_fprint_groups: "distinct (map fst (fprint_groups pn))"
  unfolding fprint_groups_def by (rule distinct_fprint_groups_foldl) simp

lemma fprint_groups_member:
  "(key, ms) \<in> set (fprint_groups pn) \<longleftrightarrow> ms \<noteq> [] \<and> ms = members_of pn key"
proof -
  have "(key, ms) \<in> set (fprint_groups pn) \<longleftrightarrow> map_of (fprint_groups pn) key = Some ms"
    using distinct_fprint_groups [of pn] by simp
  also have "\<dots> \<longleftrightarrow> ms \<noteq> [] \<and> ms = members_of pn key"
    unfolding fprint_groups_def fprint_groups_foldl by auto
  finally show ?thesis .
qed

lemma same_group_iff:
  "same_group (fprint_groups pn) a b \<longleftrightarrow>
     (\<exists>n1 n2. (a, n1) \<in> set pn \<and> (b, n2) \<in> set pn \<and> features_hex n1 = features_hex n2)"
proof
  assume "same_group (fprint_groups pn) a b"
  then obtain key ms where "(key, ms) \<in> set (fprint_groups pn)" "a \<in> set ms" "b \<in> set ms"
    by (auto simp: same_group_def)
  then have "a \<in> set (members_of pn key)" "b \<in> set (members_of pn key)"
    by (simp_all add: fprint_groups_member)
  then obtain n1 n2 where "(a, n1) \<in> set pn" "features_hex n1 = key"
    and "(b, n2) \<in> set pn" "features_hex n2 = key"
    by (auto simp: members_of_def)
  then have "(a, n1) \<in> set pn \<and> (b, n2) \<in> set pn \<and> features_hex n1 = features_hex n2"
    by simp
  then show "\<exists>n1 n2. (a, n1) \<in> set pn \<and> (b, n2) \<in> set pn \<and> features_hex n1 = features_hex n2"
    by (intro exI)
next
  assume "\<exists>n1 n2. (a, n1) \<in> set pn \<and> (b, n2) \<in> set pn \<and> features_hex n1 = features_hex n2"
  then obtain n1 n2 where n: "(a, n1) \<in> set pn" "(b, n2) \<in> set pn"
    "features_hex n1 = features_hex n2"
    by blast
  then have "a \<in> set (members_of pn (features_hex n1))"
    and "b \<in> set (members_of pn (features_hex n1))"
    by (force simp: members_of_def)+
  moreover from this
  have "(features_hex n1, members_of pn (features_hex n1)) \<in> set (fprint_groups pn)"
    by (auto simp: fprint_groups_member)
  ultimately show "same_group (fprint_groups pn) a b"
    by (auto simp: same_group_def)
qed


lemma hex_trailing_zeros: "0 < k \<Longrightarrow> hex (f @ replicate k 0) \<noteq> hex f"
proof
  assume "0 < k" and "hex (f @ replicate k 0) = hex f"
  then have "f @ replicate k 0 = f" by (auto dest: hex_inj)
  with \<open>0 < k\<close> show False by simp
qed

lemma same_group_distinct:
  assumes "distinct (map fst pn)" and "(nid1, n1) \<in> set pn" and "(nid2, n2) \<in> set pn"
  shows "same_group (fprint_groups pn) nid1 nid2 \<longleftrightarrow> features_hex n1 = features_hex n2"
proof -
  have "m1 = n1 \<and> m2 = n2" if "(nid1, m1) \<in> set pn" "(nid2, m2) \<in> set pn" for m1 m2
    using that assms by (auto dest: eq_key_imp_eq_value)
  with assms(2,3) show ?thesis
    unfolding same_group_iff by blast
qed

text \<open>
  C7. \<open>fprint_groups\<close> has one group for each \<open>features_hex\<close> that occurs, its members
  the node ids of the records with that value in the order of the dict, and every node id
  of the dict is a member exactly as often as it is a key. \<open>features_hex\<close> is the
  hexadecimal text of the raw feature bytes, which determines them: two records of a dict
  with distinct keys are in the same group if and only if their raw feature bytes are
  equal, so never when one has the bytes of the other followed by zero bytes. Which
  records share a group does not depend on the order of the dict.
\<close>

theorem fprint_groups_partition:
  "distinct (map fst (fprint_groups pn))
   \<and> mset (concat (map snd (fprint_groups pn))) = mset (map fst pn)
   \<and> (\<forall>key ms. ((key, ms) \<in> set (fprint_groups pn)) = (ms \<noteq> [] \<and> ms = members_of pn key))
   \<and> (distinct (map fst pn) \<and> (nid1, n1) \<in> set pn \<and> (nid2, n2) \<in> set pn
        \<and> features_hex n1 = hex f1 \<and> features_hex n2 = hex f2
       \<longrightarrow> same_group (fprint_groups pn) nid1 nid2 = (f1 = f2))
   \<and> (distinct (map fst pn) \<and> (nid1, n1) \<in> set pn \<and> (nid2, n2) \<in> set pn
        \<and> features_hex n1 = hex f1 \<and> features_hex n2 = hex (f1 @ replicate k 0) \<and> 0 < k
       \<longrightarrow> \<not> same_group (fprint_groups pn) nid1 nid2)
   \<and> (set pn' = set pn
       \<longrightarrow> same_group (fprint_groups pn') nid1 nid2 = same_group (fprint_groups pn) nid1 nid2)"
proof (intro conjI allI impI)
  show "distinct (map fst (fprint_groups pn))"
    by (rule distinct_fprint_groups)
next
  show "mset (concat (map snd (fprint_groups pn))) = mset (map fst pn)"
    unfolding fprint_groups_def mset_fprint_groups_foldl by simp
next
  fix key ms
  show "((key, ms) \<in> set (fprint_groups pn)) = (ms \<noteq> [] \<and> ms = members_of pn key)"
    by (rule fprint_groups_member)
next
  assume "distinct (map fst pn) \<and> (nid1, n1) \<in> set pn \<and> (nid2, n2) \<in> set pn
        \<and> features_hex n1 = hex f1 \<and> features_hex n2 = hex f2"
  then show "same_group (fprint_groups pn) nid1 nid2 = (f1 = f2)"
    using same_group_distinct [of pn nid1 n1 nid2 n2] hex_inj [of f1 f2] by auto
next
  assume a: "distinct (map fst pn) \<and> (nid1, n1) \<in> set pn \<and> (nid2, n2) \<in> set pn
        \<and> features_hex n1 = hex f1 \<and> features_hex n2 = hex (f1 @ replicate k 0) \<and> 0 < k"
  then have "features_hex n1 \<noteq> features_hex n2"
    using hex_trailing_zeros [of k f1] by auto
  with a show "\<not> same_group (fprint_groups pn) nid1 nid2"
    using same_group_distinct [of pn nid1 n1 nid2 n2] by simp
next
  assume "set pn' = set pn"
  then show "same_group (fprint_groups pn') nid1 nid2 = same_group (fprint_groups pn) nid1 nid2"
    by (simp add: same_group_iff)
qed

lemma hex_000200: "hex [0, 2, 0] = ''000200''"
  by (simp add: hex_def hex_byte_def hex_digit_def char_eval)

theorem fprint_groups_partition_witness:
  "let A = \<lparr>flen = 2, features_hex = ''0002'', features = [(''data_loss_protect'', ''optional'')],
            node_id = ''02aa'', alias = ''a'', rgb = ''#000000'', timestamp = 1,
            addresses = [], addr_types = []\<rparr>;
       B = A\<lparr>flen := 3, features_hex := ''000200'', node_id := ''02bb''\<rparr>;
       C = A\<lparr>node_id := ''02cc''\<rparr>;
       pn = [(''02aa'', A), (''02bb'', B), (''02cc'', C)]
   in fprint_groups pn = [(''0002'', [''02aa'', ''02cc'']), (''000200'', [''02bb''])]
      \<and> distinct (map fst pn)
      \<and> features_hex A = hex [0, 2] \<and> features_hex C = hex [0, 2]
      \<and> features_hex B = hex ([0, 2] @ replicate 1 0)
      \<and> same_group (fprint_groups pn) ''02aa'' ''02cc''
      \<and> \<not> same_group (fprint_groups pn) ''02aa'' ''02bb''
      \<and> same_group (fprint_groups (rev pn)) ''02aa'' ''02cc''"
proof -
  define A where "A = \<lparr>flen = 2, features_hex = ''0002'',
    features = [(''data_loss_protect'', ''optional'')], node_id = ''02aa'', alias = ''a'',
    rgb = ''#000000'', timestamp = 1, addresses = [], addr_types = []\<rparr>"
  define B where "B = A\<lparr>flen := 3, features_hex := ''000200'', node_id := ''02bb''\<rparr>"
  define C where "C = A\<lparr>node_id := ''02cc''\<rparr>"
  define pn where "pn = [(''02aa'', A), (''02bb'', B), (''02cc'', C)]"
  have g: "fprint_groups pn = [(''0002'', [''02aa'', ''02cc'']), (''000200'', [''02bb''])]"
    by (simp add: fprint_groups_def pn_def A_def B_def C_def)
  have d: "distinct (map fst pn)"
    by (simp add: pn_def)
  have m: "(''02aa'', A) \<in> set pn" "(''02bb'', B) \<in> set pn" "(''02cc'', C) \<in> set pn"
    by (simp_all add: pn_def)
  have h: "features_hex A = hex [0, 2]" "features_hex C = hex [0, 2]"
    "features_hex B = hex ([0, 2] @ replicate 1 0)"
    by (simp_all add: A_def B_def C_def hex_0002 hex_000200)
  from fprint_groups_partition [of pn "''02aa''" A "''02cc''" C "[0, 2]" "[0, 2]"] d m h
  have 1: "same_group (fprint_groups pn) ''02aa'' ''02cc''"
    by blast
  from fprint_groups_partition [of pn "''02aa''" A "''02bb''" B "[0, 2]" _ 1] d m h
  have 2: "\<not> same_group (fprint_groups pn) ''02aa'' ''02bb''"
    by blast
  have "set (rev pn) = set pn" by simp
  with fprint_groups_partition [of pn "''02aa''" _ "''02cc''" _ _ _ _ "rev pn"] 1
  have 3: "same_group (fprint_groups (rev pn)) ''02aa'' ''02cc''"
    by blast
  from g d h 1 2 3 show ?thesis
    unfolding Let_def A_def [symmetric] B_def [symmetric] C_def [symmetric] pn_def [symmetric]
    by blast
qed

section \<open>Zero-length feature bytes\<close>

text \<open>
  C9. \<open>decode_features\<close> of the empty byte string is the empty dict, a value and not a
  failure. A parsed announcement, node or channel, whose \<open>flen\<close> is 0 has the empty dict
  as its features and the empty string as the hexadecimal text of its raw feature bytes,
  and a node announcement that has the fixed fields and a \<open>flen\<close> of 0 is parsed.
\<close>

theorem decode_features_zero_length:
  "decode_features [] = []
   \<and> (\<forall>raw n. parse_node_announcement raw = Inr (Some n) \<and> flen n = 0
        \<longrightarrow> features n = [] \<and> features_hex n = [])
   \<and> (\<forall>raw c. parse_channel_announcement raw = Some c \<and> flen c = 0
        \<longrightarrow> features c = [] \<and> features_hex c = [])
   \<and> (\<forall>raw. 2 + 4 + 33 + 3 + 32 + 2 \<le> length raw \<and> node_flen raw = 0
        \<longrightarrow> (\<exists>n. parse_node_announcement raw = Inr (Some n)
               \<and> features n = [] \<and> features_hex n = []))"
proof (intro conjI allI impI)
  show "decode_features [] = []" by (rule decode_features_Nil)
next
  fix raw
  assume a: "2 + 4 + 33 + 3 + 32 + 2 \<le> length raw \<and> node_flen raw = 0"
  then have "\<not> length raw < node_flen raw + 76" by simp
  then obtain n where "parse_node_announcement raw = Inr (Some n)"
    and "features n = decode_features (slice raw 2 (node_flen raw + 2))"
    and "features_hex n = hex (slice raw 2 (node_flen raw + 2))"
    using parse_node_announcement_long [of raw] by blast
  with a have "parse_node_announcement raw = Inr (Some n)
      \<and> features n = [] \<and> features_hex n = []"
    by (simp add: slice_def decode_features_Nil hex_Nil)
  then show "\<exists>n. parse_node_announcement raw = Inr (Some n)
      \<and> features n = [] \<and> features_hex n = []"
    by blast
next
  fix raw n
  assume n: "parse_node_announcement raw = Inr (Some n) \<and> flen n = 0"
  then have "\<not> length raw < node_flen raw + 76"
    using parse_node_announcement_short [of raw] by auto
  then obtain m where "parse_node_announcement raw = Inr (Some m)"
    and "flen m = node_flen raw"
    and "features m = decode_features (slice raw 2 (node_flen raw + 2))"
    and "features_hex m = hex (slice raw 2 (node_flen raw + 2))"
    using parse_node_announcement_long [of raw] by blast
  with n show "features n = []" and "features_hex n = []"
    by (simp_all add: slice_def decode_features_Nil hex_Nil)
next
  fix raw c
  assume c: "parse_channel_announcement raw = Some c \<and> flen c = 0"
  then show "features c = []" and "features_hex c = []"
    using parse_channel_announcement_eq [of raw "from_bytes_big (slice raw 0 2)", OF refl]
    by (auto simp: slice_def decode_features_Nil hex_Nil split: if_splits)
qed

theorem decode_features_zero_length_witness:
  "parse_node_announcement (replicate 76 0) =
     Inr (Some \<lparr>flen = 0, features_hex = [], features = [],
                node_id = concat (replicate 33 ''00''), alias = [],
                rgb = ''#'' @ concat (replicate 3 ''00''), timestamp = 0,
                addresses = [], addr_types = []\<rparr>)
   \<and> flen \<lparr>flen = 0, features_hex = [], features = [],
            node_id = concat (replicate 33 ''00''), alias = [],
            rgb = ''#'' @ concat (replicate 3 ''00''), timestamp = 0,
            addresses = [], addr_types = []\<rparr> = 0
   \<and> features \<lparr>flen = 0, features_hex = [], features = [],
            node_id = concat (replicate 33 ''00''), alias = [],
            rgb = ''#'' @ concat (replicate 3 ''00''), timestamp = 0,
            addresses = [], addr_types = []\<rparr> = []"
proof -
  let ?raw = "replicate 76 0 :: bytes"
  have F: "from_bytes_big (slice ?raw 0 2) = 0"
    by (simp add: slice_def from_bytes_eval)
  have A: "from_bytes_big (slice ?raw (0 + 74) (0 + 76)) = 0"
    by (simp add: slice_def from_bytes_eval)
  have P: "parse_node_announcement ?raw =
     Inr (Some \<lparr>flen = 0, features_hex = [], features = [],
                node_id = concat (replicate 33 ''00''), alias = [],
                rgb = ''#'' @ concat (replicate 3 ''00''), timestamp = 0,
                addresses = [], addr_types = []\<rparr>)"
    unfolding parse_node_announcement_eq [OF F A]
    by (simp add: slice_def parse_addresses_Nil hex_Nil decode_features_Nil hex_zeros
        from_bytes_eval rstrip0_all_zeros)
  from decode_features_zero_length [THEN conjunct2, THEN conjunct1, rule_format, of ?raw]
    P
  show ?thesis by simp
qed

section \<open>A channel announcement whose feature length passes the end\<close>

text \<open>
  C1. The payload of 174 bytes \<open>FF FF\<close> followed by 172 zero bytes has the fixed minimum
  length and a \<open>flen\<close> of 65535. \<open>parse_channel_announcement\<close> does not return \<open>None\<close>
  on it: the feature slice takes the 172 bytes there are, and the slices after it are
  empty, so the record has empty \<open>node1\<close> and \<open>node2\<close> and a \<open>scid\<close> of 0.
\<close>

theorem parse_channel_announcement_flen_past_end:
  "parse_channel_announcement (0xFF # 0xFF # replicate 172 0) =
     Some \<lparr>flen = 65535,
           features_hex = concat (replicate 172 ''00''),
           features = [],
           scid = 0,
           node1 = [],
           node2 = []\<rparr>"
  unfolding parse_channel_announcement_def Let_def
  by (simp add: slice_def decode_features_zeros hex_zeros)
    (simp add: from_bytes_big_def hex_def)

end
